theory Spec2Isabelle
  imports Complex_Main "HOL-Library.AList" "HOL-Library.Sublist" "HOL-Library.Product_Lexorder"
begin

section \<open>Grid cells\<close>

text \<open>
  \<^verbatim>\<open>analyze_image_hybrid\<close> (scripts/hybrid\_analyzer.py) and \<^verbatim>\<open>run_balanced_test\<close>
  (balanced\_vocab\_analyzer.py) cut every image into four cells with the same dict literal:
  \<^verbatim>\<open>
  width, height = image.size
  grid_cells = {
      'top_left': image.crop((0, 0, width//2, height//2)),
      'top_right': image.crop((width//2, 0, width, height//2)),
      'bottom_left': image.crop((0, height//2, width//2, height)),
      'bottom_right': image.crop((width//2, height//2, width, height))
  }
  \<close>
  A crop box is the 4-tuple (left, upper, right, lower) handed to \<^verbatim>\<open>Image.crop\<close>. Python's
  integers are unbounded and \<^verbatim>\<open>//\<close> rounds towards minus infinity, which is \<open>div\<close> on \<open>int\<close>.
\<close>

type_synonym box = "int \<times> int \<times> int \<times> int"

definition top_left :: "int \<Rightarrow> int \<Rightarrow> box" where
  "top_left width height = (0, 0, width div 2, height div 2)"

definition top_right :: "int \<Rightarrow> int \<Rightarrow> box" where
  "top_right width height = (width div 2, 0, width, height div 2)"

definition bottom_left :: "int \<Rightarrow> int \<Rightarrow> box" where
  "bottom_left width height = (0, height div 2, width div 2, height)"

definition bottom_right :: "int \<Rightarrow> int \<Rightarrow> box" where
  "bottom_right width height = (width div 2, height div 2, width, height)"

definition grid_cells :: "int \<Rightarrow> int \<Rightarrow> (string \<times> box) list" where
  "grid_cells width height =
     [(''top_left'', top_left width height),
      (''top_right'', top_right width height),
      (''bottom_left'', bottom_left width height),
      (''bottom_right'', bottom_right width height)]"

text \<open>
  The pixels a crop box selects: the columns from left up to, not including, right, and the rows
  from upper up to, not including, lower (the box convention of the imaging library). The
  pixels of an image of size (width, height) are those of the box (0, 0, width, height).
\<close>

definition box_pixels :: "box \<Rightarrow> (int \<times> int) set" where
  "box_pixels b = (case b of (left, upper, right, lower) \<Rightarrow> {left..<right} \<times> {upper..<lower})"

definition image_pixels :: "int \<Rightarrow> int \<Rightarrow> (int \<times> int) set" where
  "image_pixels width height = box_pixels (0, 0, width, height)"

definition box_width :: "box \<Rightarrow> int" where
  "box_width b = (case b of (left, upper, right, lower) \<Rightarrow> right - left)"

definition box_height :: "box \<Rightarrow> int" where
  "box_height b = (case b of (left, upper, right, lower) \<Rightarrow> lower - upper)"

subsection \<open>The four cells tile the image\<close>

lemma split_columns: "{0..<w div 2} \<union> {w div 2..<w} = {0..<(w::int)}"
  by auto

lemma disjoint_columns: "{0..<w div 2} \<inter> {w div 2..<w} = ({}::int set)"
  by auto

text \<open>
  Claim C7. For every width W and height H the four crop boxes cover exactly the pixels
  [0,W) x [0,H), no two of them share a pixel, and the right cells and the bottom cells are
  the ones that get the extra column and row of an odd width and height.
\<close>

theorem quadrants_tile_image:
  "box_pixels (top_left W H) \<union> box_pixels (top_right W H)
     \<union> box_pixels (bottom_left W H) \<union> box_pixels (bottom_right W H) = image_pixels W H
   \<and> box_pixels (top_left W H) \<inter> box_pixels (top_right W H) = {}
   \<and> box_pixels (top_left W H) \<inter> box_pixels (bottom_left W H) = {}
   \<and> box_pixels (top_left W H) \<inter> box_pixels (bottom_right W H) = {}
   \<and> box_pixels (top_right W H) \<inter> box_pixels (bottom_left W H) = {}
   \<and> box_pixels (top_right W H) \<inter> box_pixels (bottom_right W H) = {}
   \<and> box_pixels (bottom_left W H) \<inter> box_pixels (bottom_right W H) = {}
   \<and> map snd (grid_cells W H) = [top_left W H, top_right W H, bottom_left W H, bottom_right W H]
   \<and> box_width (top_left W H) = W div 2 \<and> box_width (bottom_left W H) = W div 2
   \<and> box_width (top_right W H) = W div 2 + W mod 2
   \<and> box_width (bottom_right W H) = W div 2 + W mod 2
   \<and> box_height (top_left W H) = H div 2 \<and> box_height (top_right W H) = H div 2
   \<and> box_height (bottom_left W H) = H div 2 + H mod 2
   \<and> box_height (bottom_right W H) = H div 2 + H mod 2"
proof -
  have cover: "box_pixels (top_left W H) \<union> box_pixels (top_right W H)
     \<union> box_pixels (bottom_left W H) \<union> box_pixels (bottom_right W H) = image_pixels W H"
  proof -
    have "({0..<W div 2} \<union> {W div 2..<W}) \<times> ({0..<H div 2} \<union> {H div 2..<H})
            = {0..<W} \<times> {0..<H}"
      by (simp only: split_columns)
    then show ?thesis
      unfolding box_pixels_def image_pixels_def top_left_def top_right_def bottom_left_def
        bottom_right_def
      by (simp add: Sigma_Un_distrib1 Sigma_Un_distrib2 Un_ac)
  qed
  have disj: "box_pixels (top_left W H) \<inter> box_pixels (top_right W H) = {}"
    "box_pixels (top_left W H) \<inter> box_pixels (bottom_left W H) = {}"
    "box_pixels (top_left W H) \<inter> box_pixels (bottom_right W H) = {}"
    "box_pixels (top_right W H) \<inter> box_pixels (bottom_left W H) = {}"
    "box_pixels (top_right W H) \<inter> box_pixels (bottom_right W H) = {}"
    "box_pixels (bottom_left W H) \<inter> box_pixels (bottom_right W H) = {}"
    unfolding box_pixels_def top_left_def top_right_def bottom_left_def bottom_right_def
    by auto
  have sizes: "box_width (top_left W H) = W div 2" "box_width (bottom_left W H) = W div 2"
    "box_width (top_right W H) = W div 2 + W mod 2"
    "box_width (bottom_right W H) = W div 2 + W mod 2"
    "box_height (top_left W H) = H div 2" "box_height (top_right W H) = H div 2"
    "box_height (bottom_left W H) = H div 2 + H mod 2"
    "box_height (bottom_right W H) = H div 2 + H mod 2"
    unfolding box_width_def box_height_def top_left_def top_right_def bottom_left_def
      bottom_right_def
    by simp_all
  have cells: "map snd (grid_cells W H)
      = [top_left W H, top_right W H, bottom_left W H, bottom_right W H]"
    by (simp add: grid_cells_def)
  from cover disj sizes cells show ?thesis by simp
qed

section \<open>Python values\<close>

text \<open>
  Strings are lists of characters. \<^verbatim>\<open>str.lower\<close> is modelled on the ASCII letters (the
  vocabulary is a list of English words); every other character is left as it is.
\<close>

definition lower_char :: "char \<Rightarrow> char" where
  "lower_char c =
     (case map_of (zip ''ABCDEFGHIJKLMNOPQRSTUVWXYZ'' ''abcdefghijklmnopqrstuvwxyz'') c of
        None \<Rightarrow> c
      | Some l \<Rightarrow> l)"

definition lower :: "string \<Rightarrow> string" where
  "lower s = map lower_char s"

text \<open>
  \<^verbatim>\<open>expected_vocab\<close> is a vocabulary term or \<^verbatim>\<open>None\<close>; \<^verbatim>\<open>if not expected_vocab\<close> holds for
  \<^verbatim>\<open>None\<close> and for the empty string.
\<close>

fun truthy :: "string option \<Rightarrow> bool" where
  "truthy None = False"
| "truthy (Some s) = (s \<noteq> [])"

datatype py_error = IndexError | ZeroDivisionError

text \<open>
  A \<^verbatim>\<open>for\<close> loop whose body may raise: the first exception ends the loop. The exception
  is a value of the type \<open>'e\<close>.
\<close>

fun for_each :: "('a \<Rightarrow> 's \<Rightarrow> 'e + 's) \<Rightarrow> 'a list \<Rightarrow> 's \<Rightarrow> 'e + 's" where
  "for_each body [] acc = Inr acc"
| "for_each body (x # xs) acc =
     (case body x acc of Inl e \<Rightarrow> Inl e | Inr acc' \<Rightarrow> for_each body xs acc')"

text \<open>
  \<^verbatim>\<open>defaultdict(list)\<close>: a dict in insertion order; reading a missing key gives the empty
  list, and \<^verbatim>\<open>d[k].append(v)\<close> keeps the place of a key that is already there and puts a
  new key last.
\<close>

definition dd_get :: "(string \<times> 'a list) list \<Rightarrow> string \<Rightarrow> 'a list" where
  "dd_get d k = (case map_of d k of None \<Rightarrow> [] | Some xs \<Rightarrow> xs)"

definition dd_append :: "string \<Rightarrow> 'a \<Rightarrow> (string \<times> 'a list) list \<Rightarrow> (string \<times> 'a list) list" where
  "dd_append k v d = AList.update k (dd_get d k @ [v]) d"

text \<open>
  \<^verbatim>\<open>collections.Counter\<close>: a dict in insertion order. \<^verbatim>\<open>most_common(1)\<close> is
  \<^verbatim>\<open>heapq.nlargest(1, items, key=count)\<close>, that is \<^verbatim>\<open>max(items, key=count)\<close>: the first item
  among those with the largest count, and the empty list for an empty counter.
\<close>

type_synonym counter = "(string \<times> nat) list"

definition counter_incr :: "string \<Rightarrow> counter \<Rightarrow> counter" where
  "counter_incr k c = AList.update k (case map_of c k of None \<Rightarrow> 1 | Some n \<Rightarrow> n + 1) c"

fun first_max :: "string \<times> nat \<Rightarrow> counter \<Rightarrow> string \<times> nat" where
  "first_max best [] = best"
| "first_max best (x # xs) = first_max (if snd best < snd x then x else best) xs"

fun most_common_1 :: "counter \<Rightarrow> (string \<times> nat) list" where
  "most_common_1 [] = []"
| "most_common_1 (x # xs) = [first_max x xs]"

section \<open>Predictions, observations and the analyzer state\<close>

text \<open>
  One entry of \<^verbatim>\<open>get_top_predictions\<close>. \<^verbatim>\<open>confidence\<close> is the probability and
  \<^verbatim>\<open>confidence_percent\<close> is \<^verbatim>\<open>confidence * 100\<close>. Floating point numbers are modelled by
  the reals: comparisons with the thresholds and the arithmetic of the metrics are exact.
\<close>

record prediction =
  rank :: nat
  class_idx :: string
  class_name :: string
  confidence :: real
  confidence_percent :: real

text \<open>
  \<^verbatim>\<open>discovery_info\<close>: one observation. In the source the key \<^verbatim>\<open>'confidence'\<close> holds the
  percentage. The balanced analyzer writes \<^verbatim>\<open>'confidence_gap'\<close> and the hybrid analyzer writes
  \<^verbatim>\<open>'mapping_type'\<close>; a key that is not written is \<open>None\<close>.
\<close>

record discovery_info =
  expected_vocab :: string
  disc_confidence :: real
  disc_rank :: nat
  confidence_gap :: "real option"
  disc_mapping_type :: "string option"

text \<open>One entry of \<^verbatim>\<open>validation_stats\<close>, with the same convention for missing keys.\<close>

record stats =
  vocab_term :: string
  evidence_count :: nat
  avg_confidence :: real
  consistency_ratio :: real
  rank_1_ratio :: "real option"
  high_confidence_ratio :: "real option"
  quality_score :: real
  mapping_type :: "string option"

record analyzer =
  vocab_terms :: "string list"
  class_mapping :: "string \<rightharpoonup> string"
  discovered_classes :: "(string \<times> discovery_info list) list"
  validation_stats :: "string \<rightharpoonup> stats"

text \<open>The state after \<^verbatim>\<open>__init__\<close>, for a vocabulary file with the given lines.\<close>

definition init_analyzer :: "string list \<Rightarrow> analyzer" where
  "init_analyzer terms =
     \<lparr>vocab_terms = terms, class_mapping = Map.empty, discovered_classes = [],
      validation_stats = Map.empty\<rparr>"

section \<open>The balanced analyzer\<close>

subsection \<open>\<^verbatim>\<open>discover_class_mappings_balanced\<close>\<close>

text \<open>
  The body of the loop over \<^verbatim>\<open>enumerate(top_predictions)\<close>. \<^verbatim>\<open>predictions[5]\<close> is read
  only under \<^verbatim>\<open>len(predictions) > 5\<close>.
\<close>

definition discover_step_balanced ::
  "string \<Rightarrow> prediction list \<Rightarrow> nat \<times> prediction \<Rightarrow> 'a analyzer_scheme \<Rightarrow> 'a analyzer_scheme" where
  "discover_step_balanced expected predictions ip s =
     (case ip of (i, pred) \<Rightarrow>
        if confidence_percent pred > 20 then
          if length predictions > 5 then
            let sixth_confidence = confidence_percent (predictions ! 5);
                gap = confidence_percent pred - sixth_confidence
            in if gap > 5 then
                 if class_idx pred \<notin> dom (class_mapping s) then
                   s\<lparr>discovered_classes :=
                       dd_append (class_idx pred)
                         \<lparr>expected_vocab = expected, disc_confidence = confidence_percent pred,
                          disc_rank = i + 1, confidence_gap = Some gap,
                          disc_mapping_type = None\<rparr>
                         (discovered_classes s)\<rparr>
                 else s
               else s
          else s
        else s)"

definition discover_class_mappings_balanced ::
  "prediction list \<Rightarrow> string option \<Rightarrow> 'a analyzer_scheme \<Rightarrow> 'a analyzer_scheme" where
  "discover_class_mappings_balanced predictions expected s =
     (if \<not> truthy expected then s
      else fold (discover_step_balanced (the expected) predictions)
             (enumerate 0 (take 5 predictions)) s)"

subsection \<open>\<^verbatim>\<open>build_class_mapping_balanced\<close>\<close>

text \<open>The four accumulators of the loop over the observations of one class.\<close>

record tally =
  vocab_counts :: counter
  total_confidence :: real
  rank_1_count :: nat
  high_confidence_count :: nat

definition tally_balanced :: "discovery_info \<Rightarrow> tally \<Rightarrow> tally" where
  "tally_balanced discovery t =
     \<lparr>vocab_counts = counter_incr (expected_vocab discovery) (vocab_counts t),
      total_confidence = total_confidence t + disc_confidence discovery,
      rank_1_count = (if disc_rank discovery = 1 then rank_1_count t + 1 else rank_1_count t),
      high_confidence_count =
        (if disc_confidence discovery > 30 then high_confidence_count t + 1
         else high_confidence_count t)\<rparr>"

definition empty_tally :: tally where
  "empty_tally = \<lparr>vocab_counts = [], total_confidence = 0, rank_1_count = 0,
                   high_confidence_count = 0\<rparr>"

text \<open>
  The body of the loop over \<^verbatim>\<open>self.discovered_classes.items()\<close>. The accumulator is
  \<^verbatim>\<open>new_mappings\<close> and \<^verbatim>\<open>self.validation_stats\<close>. The divisions are by
  \<^verbatim>\<open>len(discoveries)\<close>, which is at least 2 where they stand; \<^verbatim>\<open>most_common(1)[0]\<close> raises
  \<^verbatim>\<open>IndexError\<close> on an empty counter.
\<close>

definition build_step_balanced ::
  "string \<times> discovery_info list \<Rightarrow> (string \<rightharpoonup> string) \<times> (string \<rightharpoonup> stats)
     \<Rightarrow> py_error + (string \<rightharpoonup> string) \<times> (string \<rightharpoonup> stats)" where
  "build_step_balanced item acc =
     (case item of (cidx, discoveries) \<Rightarrow>
     (case acc of (new_mappings, vstats) \<Rightarrow>
        if length discoveries < 2 then Inr acc
        else
          let t = fold tally_balanced discoveries empty_tally;
              n = real (length discoveries);
              avg_confidence = total_confidence t / n
          in (case most_common_1 (vocab_counts t) of
               [] \<Rightarrow> Inl IndexError
             | (most_common_vocab, occurrence_count) # _ \<Rightarrow>
                 let consistency_ratio = real occurrence_count / n;
                     rank_1_ratio = real (rank_1_count t) / n;
                     high_confidence_ratio = real (high_confidence_count t) / n;
                     validation_passed =
                       (avg_confidence > 25 \<and> consistency_ratio > 0.5 \<and> occurrence_count \<ge> 2
                        \<and> (rank_1_ratio > 0.2 \<or> high_confidence_ratio > 0.3))
                 in if validation_passed then
                      let quality_score =
                            avg_confidence * consistency_ratio
                              * (rank_1_ratio + high_confidence_ratio)
                      in Inr (new_mappings(cidx \<mapsto> lower most_common_vocab),
                              vstats(cidx \<mapsto>
                                \<lparr>vocab_term = most_common_vocab,
                                 evidence_count = length discoveries,
                                 avg_confidence = avg_confidence,
                                 consistency_ratio = consistency_ratio,
                                 rank_1_ratio = Some rank_1_ratio,
                                 high_confidence_ratio = Some high_confidence_ratio,
                                 quality_score = quality_score,
                                 mapping_type = None\<rparr>))
                    else Inr acc)))"

text \<open>
  The rebuild: the loop, then \<^verbatim>\<open>self.class_mapping.update(new_mappings)\<close>; the result is
  \<^verbatim>\<open>new_mappings\<close> and the new state.
\<close>

definition build_class_mapping_balanced ::
  "'a analyzer_scheme \<Rightarrow> py_error + (string \<rightharpoonup> string) \<times> 'a analyzer_scheme" where
  "build_class_mapping_balanced s =
     (case for_each build_step_balanced (discovered_classes s) (Map.empty, validation_stats s) of
        Inl e \<Rightarrow> Inl e
      | Inr (new_mappings, vstats) \<Rightarrow>
          Inr (new_mappings,
               s\<lparr>validation_stats := vstats,
                 class_mapping := class_mapping s ++ new_mappings\<rparr>))"

section \<open>The hybrid analyzer\<close>

subsection \<open>\<^verbatim>\<open>discover_class_mappings_hybrid\<close>\<close>

text \<open>
  The body of the loop over \<^verbatim>\<open>enumerate(predictions[:3])\<close>: a class that is already mapped
  is skipped; a confidence above 70 writes the mapping and its statistics at once; a
  confidence above 50, and otherwise above 30, appends an observation.
\<close>

definition discover_step_hybrid ::
  "string \<Rightarrow> nat \<times> prediction \<Rightarrow> 'a analyzer_scheme \<Rightarrow> 'a analyzer_scheme" where
  "discover_step_hybrid expected ip s =
     (case ip of (i, pred) \<Rightarrow>
        if class_idx pred \<in> dom (class_mapping s) then s
        else if confidence_percent pred > 70 then
          s\<lparr>class_mapping := (class_mapping s)(class_idx pred \<mapsto> lower expected),
            validation_stats := (validation_stats s)(class_idx pred \<mapsto>
              \<lparr>vocab_term = expected,
               evidence_count = 1,
               avg_confidence = confidence_percent pred,
               consistency_ratio = 1,
               rank_1_ratio = None,
               high_confidence_ratio = None,
               quality_score = confidence_percent pred,
               mapping_type = Some ''immediate_high_confidence''\<rparr>)\<rparr>
        else if confidence_percent pred > 50 then
          s\<lparr>discovered_classes :=
              dd_append (class_idx pred)
                \<lparr>expected_vocab = expected, disc_confidence = confidence_percent pred,
                 disc_rank = i + 1, confidence_gap = None,
                 disc_mapping_type = Some ''single_evidence_validated''\<rparr>
                (discovered_classes s)\<rparr>
        else if confidence_percent pred > 30 then
          s\<lparr>discovered_classes :=
              dd_append (class_idx pred)
                \<lparr>expected_vocab = expected, disc_confidence = confidence_percent pred,
                 disc_rank = i + 1, confidence_gap = None,
                 disc_mapping_type = Some ''multiple_evidence_required''\<rparr>
                (discovered_classes s)\<rparr>
        else s)"

definition discover_class_mappings_hybrid ::
  "prediction list \<Rightarrow> string option \<Rightarrow> 'a analyzer_scheme \<Rightarrow> 'a analyzer_scheme" where
  "discover_class_mappings_hybrid predictions expected s =
     (if \<not> truthy expected then s
      else fold (discover_step_hybrid (the expected)) (enumerate 0 (take 3 predictions)) s)"

subsection \<open>\<^verbatim>\<open>build_class_mapping_hybrid\<close>\<close>

text \<open>
  The loop over the observations of one class counts the terms, the total confidence and the
  observations above 50; it keeps no count of rank 1.
\<close>

definition tally_hybrid :: "discovery_info \<Rightarrow> tally \<Rightarrow> tally" where
  "tally_hybrid discovery t =
     \<lparr>vocab_counts = counter_incr (expected_vocab discovery) (vocab_counts t),
      total_confidence = total_confidence t + disc_confidence discovery,
      rank_1_count = rank_1_count t,
      high_confidence_count =
        (if disc_confidence discovery > 50 then high_confidence_count t + 1
         else high_confidence_count t)\<rparr>"

text \<open>
  The body of the loop over \<^verbatim>\<open>self.discovered_classes.items()\<close>. The first argument is
  \<^verbatim>\<open>self.class_mapping\<close>, which the loop reads and does not write. The divisions stand after
  \<^verbatim>\<open>if not discoveries: continue\<close>. \<^verbatim>\<open>mapping_type\<close> is assigned in the two branches that
  can set \<^verbatim>\<open>validation_passed\<close> to true, and read only then.
\<close>

definition build_step_hybrid ::
  "(string \<rightharpoonup> string) \<Rightarrow> string \<times> discovery_info list
     \<Rightarrow> (string \<rightharpoonup> string) \<times> (string \<rightharpoonup> stats)
     \<Rightarrow> py_error + (string \<rightharpoonup> string) \<times> (string \<rightharpoonup> stats)" where
  "build_step_hybrid mapping item acc =
     (case item of (cidx, discoveries) \<Rightarrow>
     (case acc of (new_mappings, vstats) \<Rightarrow>
        if cidx \<in> dom mapping then Inr acc
        else
          let t = fold tally_hybrid discoveries empty_tally
          in if discoveries = [] then Inr acc
             else
               let n = real (length discoveries);
                   avg_confidence = total_confidence t / n
               in (case most_common_1 (vocab_counts t) of
                    [] \<Rightarrow> Inl IndexError
                  | (most_common_vocab, occurrence_count) # _ \<Rightarrow>
                      let consistency_ratio = real occurrence_count / n;
                          high_confidence_ratio = real (high_confidence_count t) / n;
                          (validation_passed, mapping_type) =
                            (if length discoveries = 1 \<and> avg_confidence > 50
                             then (True, Some ''single_high_confidence'')
                             else if length discoveries \<ge> 2
                             then (avg_confidence > 35 \<and> consistency_ratio > 0.6
                                     \<and> occurrence_count \<ge> 2,
                                   Some ''multiple_evidence_validated'')
                             else (False, None))
                      in if validation_passed then
                           let quality_score =
                                 avg_confidence * consistency_ratio * (1 + high_confidence_ratio)
                           in Inr (new_mappings(cidx \<mapsto> lower most_common_vocab),
                                   vstats(cidx \<mapsto>
                                     \<lparr>vocab_term = most_common_vocab,
                                      evidence_count = length discoveries,
                                      avg_confidence = avg_confidence,
                                      consistency_ratio = consistency_ratio,
                                      rank_1_ratio = None,
                                      high_confidence_ratio = Some high_confidence_ratio,
                                      quality_score = quality_score,
                                      mapping_type = mapping_type\<rparr>))
                         else Inr acc)))"

definition build_class_mapping_hybrid ::
  "'a analyzer_scheme \<Rightarrow> py_error + (string \<rightharpoonup> string) \<times> 'a analyzer_scheme" where
  "build_class_mapping_hybrid s =
     (case for_each (build_step_hybrid (class_mapping s)) (discovered_classes s)
             (Map.empty, validation_stats s) of
        Inl e \<Rightarrow> Inl e
      | Inr (new_mappings, vstats) \<Rightarrow>
          Inr (new_mappings,
               s\<lparr>validation_stats := vstats,
                 class_mapping := class_mapping s ++ new_mappings\<rparr>))"

section \<open>Analysing images with the hybrid analyzer\<close>

subsection \<open>\<^verbatim>\<open>match_vocabulary_terms_hybrid\<close>\<close>

text \<open>
  One match of a cell. \<^verbatim>\<open>similarity\<close> is the probability of the prediction;
  \<^verbatim>\<open>validation_stats.get(class_idx, {}).get('quality_score', 0)\<close> gives 0 for a class without
  statistics, and the mapping type is then \<^verbatim>\<open>'unknown'\<close>. \<^verbatim>\<open>list.sort\<close> is stable, and so is
  \<open>sort_key\<close>; the key is the pair (-similarity, -quality\_score) in lexicographic order.
\<close>

record vocab_match =
  vm_vocab_term :: string
  vm_prediction :: prediction
  vm_match_type :: string
  similarity :: real
  vm_quality_score :: real
  vm_class_idx :: string
  vm_mapping_type :: string

definition match_of_prediction :: "'a analyzer_scheme \<Rightarrow> prediction \<Rightarrow> vocab_match list" where
  "match_of_prediction s p =
     (case class_mapping s (class_idx p) of
        None \<Rightarrow> []
      | Some vterm \<Rightarrow>
          [\<lparr>vm_vocab_term = vterm,
            vm_prediction = p,
            vm_match_type = ''hybrid_mapping'',
            similarity = confidence p,
            vm_quality_score =
              (case validation_stats s (class_idx p) of
                 None \<Rightarrow> 0 | Some st \<Rightarrow> quality_score st),
            vm_class_idx = class_idx p,
            vm_mapping_type =
              (case validation_stats s (class_idx p) of
                 None \<Rightarrow> ''unknown''
               | Some st \<Rightarrow> (case mapping_type st of None \<Rightarrow> ''unknown'' | Some t \<Rightarrow> t))\<rparr>])"

definition match_vocabulary_terms_hybrid ::
  "prediction list \<Rightarrow> 'a analyzer_scheme \<Rightarrow> vocab_match list" where
  "match_vocabulary_terms_hybrid predictions s =
     sort_key (\<lambda>m. (- similarity m, - vm_quality_score m))
       (concat (map (match_of_prediction s) (take 10 predictions)))"

subsection \<open>\<^verbatim>\<open>analyze_image_hybrid\<close>\<close>

record cell_result =
  cr_predictions :: "prediction list"
  cr_vocab_matches :: "vocab_match list"
  top_vocab_match :: "vocab_match option"
  cr_expected_vocab :: "string option"

record image_analysis =
  ia_screenshot_id :: string
  ia_image_url :: string
  ia_expected_vocab :: "string option"
  grid_results :: "(string \<times> cell_result) list"
  has_correct_detection :: bool
  has_any_detection :: bool

text \<open>
  The result of one image: the dict with \<^verbatim>\<open>'success': True\<close>, or the dict with the
  screenshot id, the error message and \<^verbatim>\<open>'success': False\<close>.
\<close>

datatype image_result = Success image_analysis | Failure string string

fun success :: "image_result \<Rightarrow> bool" where
  "success (Success a) = True"
| "success (Failure screenshot_id msg) = False"

text \<open>The hybrid analyzer has three more fields.\<close>

record hybrid_analyzer = analyzer +
  detection_frequency :: counter
  results :: "image_result list"
  total_cells_analyzed :: nat

definition init_hybrid :: "string list \<Rightarrow> hybrid_analyzer" where
  "init_hybrid terms =
     \<lparr>vocab_terms = terms, class_mapping = Map.empty, discovered_classes = [],
      validation_stats = Map.empty, detection_frequency = [], results = [],
      total_cells_analyzed = 0\<rparr>"

text \<open>
  The download, the decoding of the image and the classifier are outside the analyzer. What
  they deliver for an image is either an exception raised before the first cell is analysed
  (with its message), or, for each of the four positions, the predictions that
  \<^verbatim>\<open>get_top_predictions\<close> returns for the cell or the exception that the classifier raises.
\<close>

type_synonym cell_outcome = "string + prediction list"

type_synonym image_outcome = "string + (string \<Rightarrow> cell_outcome)"

definition grid_positions :: "string list" where
  "grid_positions = [''top_left'', ''top_right'', ''bottom_left'', ''bottom_right'']"

text \<open>
  The body of the loop over the cells. The accumulator is the analyzer, \<^verbatim>\<open>grid_results\<close> and
  the two flags. An exception leaves the \<^verbatim>\<open>try\<close> block with the state as it is then.
\<close>

definition analyze_cell_hybrid ::
  "string option \<Rightarrow> (string \<Rightarrow> cell_outcome) \<Rightarrow> string
     \<Rightarrow> hybrid_analyzer \<times> (string \<times> cell_result) list \<times> bool \<times> bool
     \<Rightarrow> (string \<times> hybrid_analyzer)
         + (hybrid_analyzer \<times> (string \<times> cell_result) list \<times> bool \<times> bool)" where
  "analyze_cell_hybrid expected cells position acc =
     (case acc of (s, grid, correct, any_detection) \<Rightarrow>
        let s1 = s\<lparr>total_cells_analyzed := total_cells_analyzed s + 1\<rparr>
        in (case cells position of
              Inl msg \<Rightarrow> Inl (msg, s1)
            | Inr predictions \<Rightarrow>
                let s2 = discover_class_mappings_hybrid predictions expected s1;
                    vocab_matches = match_vocabulary_terms_hybrid predictions s2;
                    s3 = s2\<lparr>detection_frequency :=
                              fold counter_incr (map vm_vocab_term vocab_matches)
                                (detection_frequency s2)\<rparr>;
                    any_detection' = (any_detection \<or> vocab_matches \<noteq> []);
                    correct' =
                      (correct \<or> (\<exists>m \<in> set vocab_matches.
                          truthy expected \<and> lower (vm_vocab_term m) = lower (the expected)))
                in Inr (s3,
                        AList.update position
                          \<lparr>cr_predictions = take 5 predictions,
                           cr_vocab_matches = vocab_matches,
                           top_vocab_match =
                             (case vocab_matches of [] \<Rightarrow> None | m # _ \<Rightarrow> Some m),
                           cr_expected_vocab = expected\<rparr>
                          grid,
                        correct', any_detection')))"

definition analyze_image_hybrid ::
  "(string \<Rightarrow> image_outcome) \<Rightarrow> string \<Rightarrow> string \<Rightarrow> string option \<Rightarrow> hybrid_analyzer
     \<Rightarrow> image_result \<times> hybrid_analyzer" where
  "analyze_image_hybrid world image_url screenshot_id expected s =
     (case world image_url of
        Inl msg \<Rightarrow> (Failure screenshot_id msg, s)
      | Inr cells \<Rightarrow>
          (case for_each (analyze_cell_hybrid expected cells) grid_positions
                  (s, [], False, False) of
             Inl (msg, s') \<Rightarrow> (Failure screenshot_id msg, s')
           | Inr (s', grid, correct, any_detection) \<Rightarrow>
               (Success \<lparr>ia_screenshot_id = screenshot_id, ia_image_url = image_url,
                          ia_expected_vocab = expected, grid_results = grid,
                          has_correct_detection = correct,
                          has_any_detection = any_detection\<rparr>, s')))"

subsection \<open>\<^verbatim>\<open>run_hybrid_analysis\<close>\<close>

text \<open>
  \<^verbatim>\<open>f"{i:03d}"\<close>: the decimal digits of \<open>i\<close>, filled with zeros on the left to the width 3,
  the sign of a negative number counting for one place.
\<close>

definition digit_char :: "nat \<Rightarrow> char" where
  "digit_char n = ''0123456789'' ! (n mod 10)"

function decimal :: "nat \<Rightarrow> string" where
  "decimal n = (if n < 10 then [digit_char n] else decimal (n div 10) @ [digit_char n])"
  by pat_completeness auto
termination
  by (relation "measure id") auto

declare decimal.simps [simp del]

definition zfill :: "nat \<Rightarrow> string \<Rightarrow> string" where
  "zfill width s = replicate (width - length s) CHR ''0'' @ s"

definition format_03d :: "int \<Rightarrow> string" where
  "format_03d i =
     (if i < 0 then CHR ''-'' # zfill 2 (decimal (nat (- i))) else zfill 3 (decimal (nat i)))"

definition image_url_of :: "string \<Rightarrow> string" where
  "image_url_of screenshot_id =
     ''https://raw.githubusercontent.com/levante-framework/core-tasks/more-tasks-tested/golden-runs/vocab/vocab-''
       @ screenshot_id @ ''.png''"

text \<open>
  \<^verbatim>\<open>xs[i]\<close>: for \<open>i\<close> from 0 to \<open>len(xs) - 1\<close> the element at \<open>i\<close>; for \<open>i\<close> from \<open>- len(xs)\<close> to
  \<open>-1\<close> the element at \<open>len(xs) + i\<close>; otherwise the exception \<^verbatim>\<open>IndexError\<close>.
\<close>

definition py_index :: "'a list \<Rightarrow> int \<Rightarrow> py_error + 'a" where
  "py_index xs i =
     (if 0 \<le> i \<and> i < int (length xs) then Inr (xs ! nat i)
      else if i < 0 \<and> - int (length xs) \<le> i then Inr (xs ! nat (int (length xs) + i))
      else Inl IndexError)"

text \<open>
  The expected term of image \<open>i\<close>, in \<^verbatim>\<open>run_hybrid_analysis\<close> and in \<^verbatim>\<open>run_balanced_test\<close>:
  \<^verbatim>\<open>
  vocab_index = i - 4
  expected_vocab = self.vocab_terms[vocab_index] if vocab_index < len(self.vocab_terms) else None
  \<close>
\<close>

definition expected_vocab_of :: "string list \<Rightarrow> int \<Rightarrow> py_error + string option" where
  "expected_vocab_of terms i =
     (let vocab_index = i - 4
      in if vocab_index < int (length terms)
         then (case py_index terms vocab_index of Inl e \<Rightarrow> Inl e | Inr t \<Rightarrow> Inr (Some t))
         else Inr None)"

text \<open>
  The body of the loop over the images: the expected term (outside any \<^verbatim>\<open>try\<close>), the
  analysis of the image, the result appended to \<^verbatim>\<open>self.results\<close>, and the rebuild. An
  exception ends the run, with the state as it is then.
\<close>

definition image_step_hybrid ::
  "(string \<Rightarrow> image_outcome) \<Rightarrow> int \<Rightarrow> hybrid_analyzer
     \<Rightarrow> (py_error \<times> hybrid_analyzer) + hybrid_analyzer" where
  "image_step_hybrid world i s =
     (let screenshot_id = format_03d i
      in (case expected_vocab_of (vocab_terms s) i of
            Inl e \<Rightarrow> Inl (e, s)
          | Inr expected \<Rightarrow>
              let image_url = image_url_of screenshot_id;
                  (result, s1) = analyze_image_hybrid world image_url screenshot_id expected s;
                  s2 = s1\<lparr>results := results s1 @ [result]\<rparr>
              in (case build_class_mapping_hybrid s2 of
                    Inl e \<Rightarrow> Inl (e, s2)
                  | Inr (new_mappings, s3) \<Rightarrow> Inr s3)))"

text \<open>
  The run: the loop over \<^verbatim>\<open>range(start_id, end_id + 1)\<close>, the final rebuild, and the
  statistics, which divide by the number of successful results. The value is what the method
  returns, \<^verbatim>\<open>self.results\<close>, or the exception that ends it, and the state.
\<close>

definition run_hybrid_analysis ::
  "(string \<Rightarrow> image_outcome) \<Rightarrow> int \<Rightarrow> int \<Rightarrow> hybrid_analyzer
     \<Rightarrow> (py_error + image_result list) \<times> hybrid_analyzer" where
  "run_hybrid_analysis world start_id end_id s =
     (case for_each (image_step_hybrid world) [start_id..end_id] s of
        Inl (e, s') \<Rightarrow> (Inl e, s')
      | Inr s1 \<Rightarrow>
          (case build_class_mapping_hybrid s1 of
             Inl e \<Rightarrow> (Inl e, s1)
           | Inr (new_mappings, s2) \<Rightarrow>
               if filter success (results s2) = [] then (Inl ZeroDivisionError, s2)
               else (Inr (results s2), s2)))"

section \<open>The matcher on class names\<close>

text \<open>
  \<^verbatim>\<open>VocabularyClassifier._find_vocab_matches\<close> (scripts/python\_efficientnet\_classifier.py)
  works on predictions that carry a class name. A prediction is a dict with the keys
  \<^verbatim>\<open>class_name\<close>, \<^verbatim>\<open>confidence\<close> and \<^verbatim>\<open>rank\<close>; a match is a dict with the keys
  \<^verbatim>\<open>prediction\<close>, \<^verbatim>\<open>vocab_term\<close>, \<^verbatim>\<open>match_score\<close> and \<^verbatim>\<open>match_type\<close>.
\<close>

record named_prediction =
  np_class_name :: string
  np_confidence :: real
  np_rank :: nat

record name_match =
  m_prediction :: named_prediction
  m_vocab_term :: string
  match_score :: real
  match_type :: string

text \<open>
  \<^verbatim>\<open>str.split()\<close> cuts at runs of whitespace and returns no empty word. The whitespace
  characters of ASCII are the tab, the line feed, the vertical tab, the form feed, the carriage
  return, the four separators 0x1C to 0x1F and the space. The first argument of \<open>split_ws\<close> is
  the word being read.
\<close>

definition whitespace :: "char list" where
  "whitespace =
     [CHR 0x09, CHR 0x0A, CHR 0x0B, CHR 0x0C, CHR 0x0D, CHR 0x1C, CHR 0x1D, CHR 0x1E, CHR 0x1F,
      CHR '' '']"

fun split_ws :: "string \<Rightarrow> string \<Rightarrow> string list" where
  "split_ws word [] = (if word = [] then [] else [word])"
| "split_ws word (c # cs) =
     (if c \<in> set whitespace
      then (if word = [] then split_ws [] cs else word # split_ws [] cs)
      else split_ws (word @ [c]) cs)"

definition str_split :: "string \<Rightarrow> string list" where
  "str_split s = split_ws [] s"

text \<open>
  \<^verbatim>\<open>_similarity_score\<close> is \<^verbatim>\<open>SequenceMatcher(None, text1.lower(), text2.lower()).ratio()\<close>.
  The ratio of the sequence matcher is a function of the standard library; it is a parameter
  here.
\<close>

definition similarity_score :: "(string \<Rightarrow> string \<Rightarrow> real) \<Rightarrow> string \<Rightarrow> string \<Rightarrow> real" where
  "similarity_score ratio text1 text2 = ratio (lower text1) (lower text2)"

text \<open>
  The score of one vocabulary term against a class name (already in lower case): the
  \<^verbatim>\<open>if\<close>/\<^verbatim>\<open>elif\<close> chain of the inner loop. \<^verbatim>\<open>a in b\<close> on strings is the test for a contiguous
  substring.
\<close>

definition term_score :: "(string \<Rightarrow> string \<Rightarrow> real) \<Rightarrow> string \<Rightarrow> string \<Rightarrow> real" where
  "term_score ratio cname vterm =
     (let vocab_lower = lower vterm in
      if vocab_lower = cname then 1.0
      else if sublist vocab_lower cname \<or> sublist cname vocab_lower then 0.8
      else if (\<exists>word \<in> set (str_split vocab_lower). word \<in> set (str_split cname))
              \<or> (\<exists>word \<in> set (str_split cname). word \<in> set (str_split vocab_lower))
      then 0.6
      else similarity_score ratio cname vocab_lower)"

text \<open>The body of the loop over the vocabulary; the accumulator is (best\_match, best\_score).\<close>

definition best_step ::
  "(string \<Rightarrow> string \<Rightarrow> real) \<Rightarrow> real \<Rightarrow> string \<Rightarrow> string \<Rightarrow> string option \<times> real
     \<Rightarrow> string option \<times> real" where
  "best_step ratio threshold cname vterm best =
     (case best of (best_match, best_score) \<Rightarrow>
        let score = term_score ratio cname vterm
        in if score > best_score \<and> score \<ge> threshold then (Some vterm, score)
           else (best_match, best_score))"

text \<open>
  The body of the loop over the predictions: the matches it appends (one or none).
  \<^verbatim>\<open>if best_match\<close> fails for \<^verbatim>\<open>None\<close> and for the empty string.
\<close>

definition match_prediction ::
  "(string \<Rightarrow> string \<Rightarrow> real) \<Rightarrow> string list \<Rightarrow> real \<Rightarrow> named_prediction \<Rightarrow> name_match list" where
  "match_prediction ratio vocab_list threshold pred =
     (let cname = lower (np_class_name pred);
          (best_match, best_score) =
             fold (best_step ratio threshold cname) vocab_list (None, 0)
      in if truthy best_match then
           [\<lparr>m_prediction = pred,
             m_vocab_term = the best_match,
             match_score = best_score,
             match_type = (if best_score = 1.0 then ''exact''
                           else if best_score \<ge> 0.8 then ''partial'' else ''similarity'')\<rparr>]
         else [])"

definition find_vocab_matches ::
  "(string \<Rightarrow> string \<Rightarrow> real) \<Rightarrow> string list \<Rightarrow> real \<Rightarrow> named_prediction list \<Rightarrow> name_match list" where
  "find_vocab_matches ratio vocab_list threshold predictions =
     concat (map (match_prediction ratio vocab_list threshold) predictions)"

text \<open>
  \<^verbatim>\<open>GPUOptimizedClassifier._find_vocab_matches\<close> (scripts/gpu\_optimized\_classifier.py) is the
  same loop, and returns \<^verbatim>\<open>sorted(matches, key=lambda x: x['match_score'], reverse=True)\<close>.
  A sort with \<^verbatim>\<open>reverse=True\<close> keeps matches of equal score in the order they had: it is the
  stable ascending sort of the reversed list, reversed.
\<close>

definition find_vocab_matches_gpu ::
  "(string \<Rightarrow> string \<Rightarrow> real) \<Rightarrow> string list \<Rightarrow> real \<Rightarrow> named_prediction list \<Rightarrow> name_match list" where
  "find_vocab_matches_gpu ratio vocab_list threshold predictions =
     rev (sort_key match_score (rev (find_vocab_matches ratio vocab_list threshold predictions)))"

section \<open>Runs\<close>

text \<open>
  A run of an analyzer is a sequence of calls of its two methods that write the state, the
  discovery (once per cell) and the rebuild, in any order, starting from the state after
  \<^verbatim>\<open>__init__\<close>. The policy says which of the two analyzers runs. An exception ends the run.
\<close>

datatype policy = Balanced | Hybrid

datatype call = Discover "prediction list" "string option" | Rebuild

fun discover_class_mappings ::
  "policy \<Rightarrow> prediction list \<Rightarrow> string option \<Rightarrow> 'a analyzer_scheme \<Rightarrow> 'a analyzer_scheme" where
  "discover_class_mappings Balanced = discover_class_mappings_balanced"
| "discover_class_mappings Hybrid = discover_class_mappings_hybrid"

fun build_class_mapping ::
  "policy \<Rightarrow> 'a analyzer_scheme \<Rightarrow> py_error + (string \<rightharpoonup> string) \<times> 'a analyzer_scheme" where
  "build_class_mapping Balanced = build_class_mapping_balanced"
| "build_class_mapping Hybrid = build_class_mapping_hybrid"

fun run :: "policy \<Rightarrow> call list \<Rightarrow> 'a analyzer_scheme \<Rightarrow> py_error + 'a analyzer_scheme" where
  "run p [] s = Inr s"
| "run p (Discover predictions expected # calls) s =
     run p calls (discover_class_mappings p predictions expected s)"
| "run p (Rebuild # calls) s =
     (case build_class_mapping p s of
        Inl e \<Rightarrow> Inl e
      | Inr (new_mappings, s') \<Rightarrow> run p calls s')"

section \<open>Properties of the balanced rebuild\<close>

subsection \<open>Counters\<close>

lemma map_of_counter_incr:
  "map_of (counter_incr k c) = (map_of c)(k \<mapsto> (case map_of c k of None \<Rightarrow> 1 | Some n \<Rightarrow> n + 1))"
  by (simp add: counter_incr_def update_conv')

lemma distinct_counter_incr: "distinct (map fst c) \<Longrightarrow> distinct (map fst (counter_incr k c))"
  by (simp add: counter_incr_def distinct_update)

definition counter_value :: "counter \<Rightarrow> string \<Rightarrow> nat" where
  "counter_value c k = (case map_of c k of None \<Rightarrow> 0 | Some n \<Rightarrow> n)"

lemma counter_value_incr:
  "counter_value (counter_incr k c) k' = (if k' = k then counter_value c k + 1 else counter_value c k')"
  by (simp add: counter_value_def map_of_counter_incr split: option.splits)

lemma counter_value_fold:
  "counter_value (fold counter_incr ts c) k = counter_value c k + count_list ts k"
  by (induction ts arbitrary: c) (simp_all add: counter_value_incr)

lemma distinct_counter_fold:
  "distinct (map fst c) \<Longrightarrow> distinct (map fst (fold counter_incr ts c))"
  by (induction ts arbitrary: c) (simp_all add: distinct_counter_incr)

lemma dom_counter_fold:
  "dom (map_of (fold counter_incr ts c)) = dom (map_of c) \<union> set ts"
  by (induction ts arbitrary: c) (auto simp: map_of_counter_incr)

definition counter_of :: "string list \<Rightarrow> counter" where
  "counter_of ts = fold counter_incr ts []"

lemma counter_of_entry:
  "(k, n) \<in> set (counter_of ts) \<longleftrightarrow> k \<in> set ts \<and> n = count_list ts k"
proof -
  have d: "distinct (map fst (counter_of ts))"
    by (simp add: counter_of_def distinct_counter_fold)
  have v: "counter_value (counter_of ts) k = count_list ts k"
    using counter_value_fold[of ts "[]" k] by (simp add: counter_of_def counter_value_def)
  have m: "dom (map_of (counter_of ts)) = set ts"
    by (simp add: counter_of_def dom_counter_fold)
  show ?thesis
  proof
    assume "(k, n) \<in> set (counter_of ts)"
    then have "map_of (counter_of ts) k = Some n" using d by simp
    then show "k \<in> set ts \<and> n = count_list ts k"
      using v m by (auto simp: counter_value_def)
  next
    assume a: "k \<in> set ts \<and> n = count_list ts k"
    then have "k \<in> dom (map_of (counter_of ts))" using m by simp
    then obtain n' where n': "map_of (counter_of ts) k = Some n'" by auto
    then have "n' = count_list ts k" using v by (simp add: counter_value_def)
    with a n' show "(k, n) \<in> set (counter_of ts)" by (simp add: map_of_SomeD)
  qed
qed

lemma counter_of_empty: "counter_of ts = [] \<longleftrightarrow> ts = []"
proof
  assume "counter_of ts = []"
  then have "dom (map_of (counter_of ts)) = {}" by simp
  then show "ts = []" by (simp add: counter_of_def dom_counter_fold)
qed (simp add: counter_of_def)

lemma first_max_mem: "first_max b xs \<in> set (b # xs)"
  by (induction xs arbitrary: b) (auto split: if_splits)

lemma first_max_ge_best: "snd b \<le> snd (first_max b xs)"
proof (induction xs arbitrary: b)
  case (Cons x xs)
  have "snd b \<le> snd (if snd b < snd x then x else b)" by simp
  also have "\<dots> \<le> snd (first_max (if snd b < snd x then x else b) xs)" by (rule Cons.IH)
  finally show ?case by simp
qed simp

lemma first_max_ge: "x \<in> set (b # xs) \<Longrightarrow> snd x \<le> snd (first_max b xs)"
proof (induction xs arbitrary: b)
  case Nil
  then show ?case by simp
next
  case (Cons y ys)
  show ?case
  proof (cases "x = b")
    case True
    then show ?thesis using first_max_ge_best[of b "y # ys"] by simp
  next
    case False
    with Cons.prems have "x \<in> set ((if snd b < snd y then y else b) # ys) \<or> (x = y \<and> \<not> snd b < snd y)"
      by auto
    then show ?thesis
    proof
      assume "x \<in> set ((if snd b < snd y then y else b) # ys)"
      from Cons.IH[OF this] show ?thesis by simp
    next
      assume a: "x = y \<and> \<not> snd b < snd y"
      then have "snd x \<le> snd b" by simp
      also have "\<dots> \<le> snd (first_max b (y # ys))" by (rule first_max_ge_best)
      finally show ?thesis .
    qed
  qed
qed

subsection \<open>The metrics of the specification\<close>

text \<open>
  The quantities of the specification, over all the observations \<open>ds\<close> recorded for one class:
  the average confidence, the number of observations of each expected term, the largest such
  number (the occurrence count of the majority term), the consistency ratio, the fraction of
  observations at rank 1 and the fraction above a high confidence. They are stated on the list
  of observations, independently of the loop that accumulates them.
\<close>

definition avg_confidence_of :: "discovery_info list \<Rightarrow> real" where
  "avg_confidence_of ds = sum_list (map disc_confidence ds) / real (length ds)"

definition term_count :: "discovery_info list \<Rightarrow> string \<Rightarrow> nat" where
  "term_count ds t = count_list (map expected_vocab ds) t"

definition occurrence_count_of :: "discovery_info list \<Rightarrow> nat" where
  "occurrence_count_of ds = Max (insert 0 (term_count ds ` set (map expected_vocab ds)))"

definition majority_term :: "discovery_info list \<Rightarrow> string \<Rightarrow> bool" where
  "majority_term ds m \<longleftrightarrow>
     m \<in> set (map expected_vocab ds) \<and> term_count ds m = occurrence_count_of ds"

definition consistency_ratio_of :: "discovery_info list \<Rightarrow> real" where
  "consistency_ratio_of ds = real (occurrence_count_of ds) / real (length ds)"

definition rank_1_ratio_of :: "discovery_info list \<Rightarrow> real" where
  "rank_1_ratio_of ds = real (length (filter (\<lambda>d. disc_rank d = 1) ds)) / real (length ds)"

definition high_confidence_ratio_of :: "real \<Rightarrow> discovery_info list \<Rightarrow> real" where
  "high_confidence_ratio_of high ds =
     real (length (filter (\<lambda>d. disc_confidence d > high) ds)) / real (length ds)"

definition most_common_vocab_of :: "discovery_info list \<Rightarrow> string" where
  "most_common_vocab_of ds =
     (case most_common_1 (counter_of (map expected_vocab ds)) of [] \<Rightarrow> [] | (m, n) # _ \<Rightarrow> m)"

lemma fold_tally_balanced:
  "fold tally_balanced ds t =
     \<lparr>vocab_counts = fold counter_incr (map expected_vocab ds) (vocab_counts t),
      total_confidence = total_confidence t + sum_list (map disc_confidence ds),
      rank_1_count = rank_1_count t + length (filter (\<lambda>d. disc_rank d = 1) ds),
      high_confidence_count =
        high_confidence_count t + length (filter (\<lambda>d. disc_confidence d > 30) ds)\<rparr>"
  by (induction ds arbitrary: t) (simp_all add: tally_balanced_def)

lemma most_common_1_counter_of:
  assumes "ds \<noteq> []"
  shows "most_common_1 (counter_of (map expected_vocab ds))
           = [(most_common_vocab_of ds, occurrence_count_of ds)]
         \<and> majority_term ds (most_common_vocab_of ds)"
proof -
  let ?ts = "map expected_vocab ds"
  let ?c = "counter_of ?ts"
  from assms have "?c \<noteq> []" by (simp add: counter_of_empty)
  then obtain x xs where c: "?c = x # xs" by (cases ?c) auto
  obtain m n where mn: "first_max x xs = (m, n)" by (cases "first_max x xs")
  have mem: "(m, n) \<in> set ?c" using first_max_mem[of x xs] c mn by simp
  then have m_in: "m \<in> set ?ts" and n_eq: "n = count_list ?ts m"
    by (simp_all add: counter_of_entry)
  have ge: "term_count ds t \<le> n" if "t \<in> set ?ts" for t
  proof -
    from that have "(t, count_list ?ts t) \<in> set ?c"
      by (simp add: counter_of_entry)
    then have "(t, count_list ?ts t) \<in> set (x # xs)"
      by (simp only: c)
    from first_max_ge[OF this] show ?thesis by (simp add: mn term_count_def)
  qed
  have "Max (insert 0 (term_count ds ` set ?ts)) = n"
  proof (rule Max_eqI)
    show "finite (insert 0 (term_count ds ` set ?ts))" by simp
    show "y \<le> n" if "y \<in> insert 0 (term_count ds ` set ?ts)" for y
      using that ge by auto
    show "n \<in> insert 0 (term_count ds ` set ?ts)"
      using m_in n_eq by (auto simp: term_count_def)
  qed
  then have occ: "occurrence_count_of ds = n" by (simp add: occurrence_count_of_def)
  have mc: "most_common_1 ?c = [(m, n)]" using c mn by simp
  then have mv: "most_common_vocab_of ds = m" by (simp add: most_common_vocab_of_def)
  show ?thesis using mc mv occ m_in n_eq by (simp add: majority_term_def term_count_def)
qed

lemma term_count_le_length: "term_count ds t \<le> length ds"
  unfolding term_count_def using count_le_length[of "map expected_vocab ds" t] by simp

lemma occurrence_count_le_length: "occurrence_count_of ds \<le> length ds"
  unfolding occurrence_count_of_def
  by (rule Max.boundedI) (auto simp: term_count_le_length)


definition balanced_accepts :: "discovery_info list \<Rightarrow> bool" where
  "balanced_accepts ds \<longleftrightarrow>
     avg_confidence_of ds > 25 \<and> consistency_ratio_of ds > 0.5 \<and> occurrence_count_of ds \<ge> 2
     \<and> (rank_1_ratio_of ds > 0.2 \<or> high_confidence_ratio_of 30 ds > 0.3)"

definition balanced_stats :: "discovery_info list \<Rightarrow> stats" where
  "balanced_stats ds =
     \<lparr>vocab_term = most_common_vocab_of ds,
      evidence_count = length ds,
      avg_confidence = avg_confidence_of ds,
      consistency_ratio = consistency_ratio_of ds,
      rank_1_ratio = Some (rank_1_ratio_of ds),
      high_confidence_ratio = Some (high_confidence_ratio_of 30 ds),
      quality_score = avg_confidence_of ds * consistency_ratio_of ds
                        * (rank_1_ratio_of ds + high_confidence_ratio_of 30 ds),
      mapping_type = None\<rparr>"

definition new_mappings_balanced :: "(string \<times> discovery_info list) list \<Rightarrow> (string \<rightharpoonup> string)" where
  "new_mappings_balanced dcs c =
     (case map_of dcs c of
        None \<Rightarrow> None
      | Some ds \<Rightarrow> if balanced_accepts ds then Some (lower (most_common_vocab_of ds)) else None)"

definition new_stats_balanced :: "(string \<times> discovery_info list) list \<Rightarrow> (string \<rightharpoonup> stats)" where
  "new_stats_balanced dcs c =
     (case map_of dcs c of
        None \<Rightarrow> None
      | Some ds \<Rightarrow> if balanced_accepts ds then Some (balanced_stats ds) else None)"

lemma balanced_accepts_length: "balanced_accepts ds \<Longrightarrow> 2 \<le> length ds"
  using occurrence_count_le_length[of ds] by (simp add: balanced_accepts_def)

lemma build_step_balanced_eq:
  "build_step_balanced (c, ds) (nm, vs) =
     Inr (if balanced_accepts ds
          then (nm(c \<mapsto> lower (most_common_vocab_of ds)), vs(c \<mapsto> balanced_stats ds))
          else (nm, vs))"
proof (cases "length ds < 2")
  case True
  then have "\<not> balanced_accepts ds" using balanced_accepts_length[of ds] by auto
  with True show ?thesis by (simp add: build_step_balanced_def)
next
  case False
  then have ne: "ds \<noteq> []" by auto
  have t: "fold tally_balanced ds empty_tally =
     \<lparr>vocab_counts = counter_of (map expected_vocab ds),
      total_confidence = sum_list (map disc_confidence ds),
      rank_1_count = length (filter (\<lambda>d. disc_rank d = 1) ds),
      high_confidence_count = length (filter (\<lambda>d. disc_confidence d > 30) ds)\<rparr>"
    by (simp add: fold_tally_balanced empty_tally_def counter_of_def)
  have mc: "most_common_1 (counter_of (map expected_vocab ds))
           = [(most_common_vocab_of ds, occurrence_count_of ds)]"
    using most_common_1_counter_of[OF ne] by simp
  show ?thesis
    using False
    by (auto simp: build_step_balanced_def t mc Let_def balanced_accepts_def balanced_stats_def
        avg_confidence_of_def consistency_ratio_of_def rank_1_ratio_of_def
        high_confidence_ratio_of_def)
qed

lemma for_each_build_step_balanced:
  "distinct (map fst dcs) \<Longrightarrow>
   for_each build_step_balanced dcs (nm, vs) =
     Inr (nm ++ new_mappings_balanced dcs, vs ++ new_stats_balanced dcs)"
proof (induction dcs arbitrary: nm vs)
  case Nil
  show ?case by (simp add: new_mappings_balanced_def new_stats_balanced_def map_add_def)
next
  case (Cons x xs)
  obtain c ds where x: "x = (c, ds)" by (cases x)
  from Cons.prems x have c: "map_of xs c = None" and d: "distinct (map fst xs)"
    by (simp_all add: map_of_eq_None_iff)
  have nm: "(if balanced_accepts ds then nm(c \<mapsto> lower (most_common_vocab_of ds)) else nm)
              ++ new_mappings_balanced xs = nm ++ new_mappings_balanced ((c, ds) # xs)"
    using c by (auto simp: fun_eq_iff map_add_def new_mappings_balanced_def split: option.splits)
  have vs: "(if balanced_accepts ds then vs(c \<mapsto> balanced_stats ds) else vs)
              ++ new_stats_balanced xs = vs ++ new_stats_balanced ((c, ds) # xs)"
    using c by (auto simp: fun_eq_iff map_add_def new_stats_balanced_def split: option.splits)
  let ?nm = "if balanced_accepts ds then nm(c \<mapsto> lower (most_common_vocab_of ds)) else nm"
  let ?vs = "if balanced_accepts ds then vs(c \<mapsto> balanced_stats ds) else vs"
  have "for_each build_step_balanced (x # xs) (nm, vs) = for_each build_step_balanced xs (?nm, ?vs)"
    by (simp add: x build_step_balanced_eq)
  also have "\<dots> = Inr (?nm ++ new_mappings_balanced xs, ?vs ++ new_stats_balanced xs)"
    by (rule Cons.IH[OF d])
  also have "\<dots> = Inr (nm ++ new_mappings_balanced (x # xs), vs ++ new_stats_balanced (x # xs))"
    by (simp only: nm vs x)
  finally show ?case .
qed

lemma build_class_mapping_balanced_eq:
  assumes "distinct (map fst (discovered_classes s))"
  shows "build_class_mapping_balanced s =
     Inr (new_mappings_balanced (discovered_classes s),
          s\<lparr>validation_stats := validation_stats s ++ new_stats_balanced (discovered_classes s),
            class_mapping := class_mapping s ++ new_mappings_balanced (discovered_classes s)\<rparr>)"
  by (simp add: build_class_mapping_balanced_def for_each_build_step_balanced[OF assms])

lemma count_list_two_le: "t \<noteq> t' \<Longrightarrow> count_list xs t + count_list xs t' \<le> length xs"
  by (induction xs) auto

lemma majority_term_unique:
  assumes "consistency_ratio_of ds > 0.5" "majority_term ds m" "majority_term ds m'"
  shows "m = m'"
proof (rule ccontr)
  assume ne: "m \<noteq> m'"
  let ?n = "occurrence_count_of ds"
  from assms(2,3) have "term_count ds m = ?n" "term_count ds m' = ?n"
    by (simp_all add: majority_term_def)
  then have "?n + ?n \<le> length ds"
    using count_list_two_le[OF ne, of "map expected_vocab ds"] by (simp add: term_count_def)
  then have le: "2 * real ?n \<le> real (length ds)" by linarith
  from assms(2) have "ds \<noteq> []" by (auto simp: majority_term_def)
  then have pos: "0 < real (length ds)" by simp
  from assms(1) have "real ?n / real (length ds) > 1 / 2"
    by (simp add: consistency_ratio_of_def)
  then have "2 * real ?n > real (length ds)" using pos by (simp add: field_simps)
  with le show False by simp
qed

lemma balanced_accepts_majority:
  assumes "balanced_accepts ds"
  shows "majority_term ds (most_common_vocab_of ds)"
proof -
  from balanced_accepts_length[OF assms] have "ds \<noteq> []" by auto
  then show ?thesis using most_common_1_counter_of by simp
qed

subsection \<open>The acceptance rule of the balanced rebuild\<close>

text \<open>
  Claim C1. The dict of a state has distinct keys. The balanced rebuild returns (it does not
  raise), and its \<^verbatim>\<open>new_mappings\<close> maps a class \<open>c\<close> to a term \<open>t\<close> if and only if, for the
  observations \<open>ds\<close> recorded for \<open>c\<close>: the average confidence is above 25, the consistency
  ratio is above 0.5, the majority term occurs at least twice, and the rank-1 ratio is above
  0.2 or the high-confidence ratio (confidence above 30) is above 0.3, where \<open>t\<close> is the
  majority expected term in lower case. For a class that is accepted, \<^verbatim>\<open>validation_stats\<close>
  records the majority term itself as \<^verbatim>\<open>vocab_term\<close>. The class mapping is updated with
  \<^verbatim>\<open>new_mappings\<close>.
\<close>

theorem balanced_rebuild_accepts_iff:
  assumes "distinct (map fst (discovered_classes s))"
  shows "\<exists>new_mappings s'.
     build_class_mapping_balanced s = Inr (new_mappings, s')
     \<and> class_mapping s' = class_mapping s ++ new_mappings
     \<and> (\<forall>c t. new_mappings c = Some t \<longleftrightarrow>
          (\<exists>ds m. map_of (discovered_classes s) c = Some ds
             \<and> avg_confidence_of ds > 25 \<and> consistency_ratio_of ds > 0.5
             \<and> occurrence_count_of ds \<ge> 2
             \<and> (rank_1_ratio_of ds > 0.2 \<or> high_confidence_ratio_of 30 ds > 0.3)
             \<and> majority_term ds m \<and> t = lower m))
     \<and> (\<forall>c t. new_mappings c = Some t \<longrightarrow>
          (\<exists>ds st. map_of (discovered_classes s) c = Some ds
             \<and> validation_stats s' c = Some st
             \<and> majority_term ds (vocab_term st) \<and> t = lower (vocab_term st)))"
proof -
  let ?dcs = "discovered_classes s"
  let ?nm = "new_mappings_balanced ?dcs"
  let ?s' = "s\<lparr>validation_stats := validation_stats s ++ new_stats_balanced ?dcs,
               class_mapping := class_mapping s ++ ?nm\<rparr>"
  have b: "build_class_mapping_balanced s = Inr (?nm, ?s')"
    by (rule build_class_mapping_balanced_eq[OF assms])
  have acc: "\<exists>ds. map_of ?dcs c = Some ds \<and> balanced_accepts ds
               \<and> t = lower (most_common_vocab_of ds)"
    if "?nm c = Some t" for c t
    using that by (auto simp: new_mappings_balanced_def split: option.splits if_splits)
  have iff: "?nm c = Some t \<longleftrightarrow>
          (\<exists>ds m. map_of ?dcs c = Some ds
             \<and> avg_confidence_of ds > 25 \<and> consistency_ratio_of ds > 0.5
             \<and> occurrence_count_of ds \<ge> 2
             \<and> (rank_1_ratio_of ds > 0.2 \<or> high_confidence_ratio_of 30 ds > 0.3)
             \<and> majority_term ds m \<and> t = lower m)" (is "?L \<longleftrightarrow> ?R") for c t
  proof
    assume ?L
    from acc[OF this] obtain ds where ds: "map_of ?dcs c = Some ds" "balanced_accepts ds"
      "t = lower (most_common_vocab_of ds)"
      by blast
    from ds(2) have a: "avg_confidence_of ds > 25" "consistency_ratio_of ds > 0.5"
      "occurrence_count_of ds \<ge> 2"
      "rank_1_ratio_of ds > 0.2 \<or> high_confidence_ratio_of 30 ds > 0.3"
      by (simp_all add: balanced_accepts_def)
    show ?R
      using ds(1,3) a balanced_accepts_majority[OF ds(2)] by blast
  next
    assume ?R
    then obtain ds m where ds: "map_of ?dcs c = Some ds" "avg_confidence_of ds > 25"
      "consistency_ratio_of ds > 0.5" "occurrence_count_of ds \<ge> 2"
      "rank_1_ratio_of ds > 0.2 \<or> high_confidence_ratio_of 30 ds > 0.3"
      "majority_term ds m" "t = lower m"
      by blast
    then have a: "balanced_accepts ds" by (simp add: balanced_accepts_def)
    have "m = most_common_vocab_of ds"
      using majority_term_unique[OF ds(3) ds(6) balanced_accepts_majority[OF a]] .
    then show ?L using ds(1,7) a by (simp add: new_mappings_balanced_def)
  qed
  have stats: "\<exists>ds st. map_of ?dcs c = Some ds \<and> validation_stats ?s' c = Some st
                 \<and> majority_term ds (vocab_term st) \<and> t = lower (vocab_term st)"
    if "?nm c = Some t" for c t
  proof -
    from acc[OF that] obtain ds where ds: "map_of ?dcs c = Some ds" "balanced_accepts ds"
      "t = lower (most_common_vocab_of ds)"
      by blast
    have st: "validation_stats ?s' c = Some (balanced_stats ds)"
      using ds by (simp add: new_stats_balanced_def map_add_def)
    have vt: "vocab_term (balanced_stats ds) = most_common_vocab_of ds"
      by (simp add: balanced_stats_def)
    from balanced_accepts_majority[OF ds(2)] ds(1,3) st show ?thesis
      unfolding vt[symmetric] by blast
  qed
  have cm: "class_mapping ?s' = class_mapping s ++ ?nm" by simp
  show ?thesis
  proof (intro exI[of _ ?nm] exI[of _ ?s'] conjI allI impI)
    show "build_class_mapping_balanced s = Inr (?nm, ?s')" by (rule b)
    show "class_mapping ?s' = class_mapping s ++ ?nm" by (rule cm)
    show "?nm c = Some t \<longleftrightarrow>
          (\<exists>ds m. map_of ?dcs c = Some ds
             \<and> avg_confidence_of ds > 25 \<and> consistency_ratio_of ds > 0.5
             \<and> occurrence_count_of ds \<ge> 2
             \<and> (rank_1_ratio_of ds > 0.2 \<or> high_confidence_ratio_of 30 ds > 0.3)
             \<and> majority_term ds m \<and> t = lower m)" for c t
      by (rule iff)
    show "\<exists>ds st. map_of ?dcs c = Some ds \<and> validation_stats ?s' c = Some st
                 \<and> majority_term ds (vocab_term st) \<and> t = lower (vocab_term st)"
      if "?nm c = Some t" for c t
      using that by (rule stats)
  qed
qed

text \<open>
  A state with two classes: class 42 was seen twice at 40 percent and rank 1 and is accepted;
  class 7 was seen twice at 30 percent and rank 2 and is rejected (no rank 1, and 30 is not
  above 30).
\<close>

definition observation :: "string \<Rightarrow> real \<Rightarrow> nat \<Rightarrow> discovery_info" where
  "observation e c r = \<lparr>expected_vocab = e, disc_confidence = c, disc_rank = r,
                        confidence_gap = Some 10, disc_mapping_type = None\<rparr>"

definition two_classes :: analyzer where
  "two_classes =
     \<lparr>vocab_terms = [''Acorn''], class_mapping = Map.empty,
      discovered_classes =
        [(''42'', [observation ''Acorn'' 40 1, observation ''Acorn'' 40 1]),
         (''7'', [observation ''Acorn'' 30 2, observation ''Acorn'' 30 2])],
      validation_stats = Map.empty\<rparr>"

lemmas balanced_eval =
  build_class_mapping_balanced_def build_step_balanced_def Let_def tally_balanced_def
  empty_tally_def counter_incr_def lower_def lower_char_def observation_def

theorem balanced_rebuild_accepts_iff_witness:
  "distinct (map fst (discovered_classes two_classes)) \<and>
   (\<exists>nm s'. build_class_mapping_balanced two_classes = Inr (nm, s')
      \<and> nm ''42'' = Some ''acorn'' \<and> nm ''7'' = None)"
proof -
  have d: "distinct (map fst (discovered_classes two_classes))" by (simp add: two_classes_def)
  from balanced_rebuild_accepts_iff[OF d] obtain nm s' where
    b: "build_class_mapping_balanced two_classes = Inr (nm, s')" by blast
  then have "nm ''42'' = Some ''acorn''" "nm ''7'' = None"
    by (auto simp add: balanced_eval two_classes_def)
  with d b show ?thesis by blast
qed

section \<open>Properties of the balanced discovery\<close>

subsection \<open>Appending to a dict of lists\<close>

lemma map_of_dd_append:
  "map_of (dd_append k v d) k' = (if k' = k then Some (dd_get d k @ [v]) else map_of d k')"
  by (simp add: dd_append_def update_conv')

lemma dd_get_dd_append:
  "dd_get (dd_append k v d) k' = (if k' = k then dd_get d k @ [v] else dd_get d k')"
  by (simp add: dd_get_def map_of_dd_append)

lemma distinct_dd_append: "distinct (map fst d) \<Longrightarrow> distinct (map fst (dd_append k v d))"
  by (simp add: dd_append_def distinct_update)

subsection \<open>What one call records\<close>

text \<open>
  The gate of the loop body as one condition, and the observation it appends.
\<close>

definition recorded_balanced :: "'a analyzer_scheme \<Rightarrow> prediction list \<Rightarrow> prediction \<Rightarrow> bool" where
  "recorded_balanced s predictions pred \<longleftrightarrow>
     class_idx pred \<notin> dom (class_mapping s) \<and> confidence_percent pred > 20
     \<and> length predictions > 5
     \<and> confidence_percent pred - confidence_percent (predictions ! 5) > 5"

definition observation_balanced :: "string \<Rightarrow> prediction list \<Rightarrow> nat \<times> prediction \<Rightarrow> discovery_info" where
  "observation_balanced expected predictions ip =
     (case ip of (i, pred) \<Rightarrow>
        \<lparr>expected_vocab = expected, disc_confidence = confidence_percent pred,
         disc_rank = i + 1,
         confidence_gap = Some (confidence_percent pred - confidence_percent (predictions ! 5)),
         disc_mapping_type = None\<rparr>)"

lemma discover_step_balanced_eq:
  "discover_step_balanced e preds (i, p) s =
     (if recorded_balanced s preds p
      then s\<lparr>discovered_classes :=
               dd_append (class_idx p) (observation_balanced e preds (i, p)) (discovered_classes s)\<rparr>
      else s)"
  by (simp add: discover_step_balanced_def recorded_balanced_def observation_balanced_def Let_def)

lemma discover_step_balanced_fields:
  "class_mapping (discover_step_balanced e preds ip s) = class_mapping s"
  "validation_stats (discover_step_balanced e preds ip s) = validation_stats s"
  "vocab_terms (discover_step_balanced e preds ip s) = vocab_terms s"
  by (cases ip; simp add: discover_step_balanced_eq)+

lemma recorded_balanced_step:
  "recorded_balanced (discover_step_balanced e preds ip s) preds' p = recorded_balanced s preds' p"
  by (simp add: recorded_balanced_def discover_step_balanced_fields)

lemma fold_discover_step_balanced_fields:
  "class_mapping (fold (discover_step_balanced e preds) ips s) = class_mapping s"
  "validation_stats (fold (discover_step_balanced e preds) ips s) = validation_stats s"
  "vocab_terms (fold (discover_step_balanced e preds) ips s) = vocab_terms s"
  by (induction ips arbitrary: s; simp add: discover_step_balanced_fields)+

lemma fold_discover_step_balanced_get:
  "dd_get (discovered_classes (fold (discover_step_balanced e preds) ips s)) c =
     dd_get (discovered_classes s) c
       @ map (observation_balanced e preds)
           (filter (\<lambda>ip. class_idx (snd ip) = c \<and> recorded_balanced s preds (snd ip)) ips)"
proof (induction ips arbitrary: s)
  case Nil
  show ?case by simp
next
  case (Cons ip ips)
  obtain i p where ip: "ip = (i, p)" by (cases ip)
  show ?case
    by (simp add: Cons.IH recorded_balanced_step)
       (auto simp add: ip discover_step_balanced_eq dd_get_dd_append)
qed

lemma fold_discover_step_balanced_distinct:
  "distinct (map fst (discovered_classes s)) \<Longrightarrow>
   distinct (map fst (discovered_classes (fold (discover_step_balanced e preds) ips s)))"
proof (induction ips arbitrary: s)
  case (Cons ip ips)
  obtain i p where ip: "ip = (i, p)" by (cases ip)
  have "distinct (map fst (discovered_classes (discover_step_balanced e preds ip s)))"
    using Cons.prems by (simp add: ip discover_step_balanced_eq distinct_dd_append)
  from Cons.IH[OF this] show ?case by simp
qed simp

lemma fold_discover_step_balanced_mapped:
  "c \<in> dom (class_mapping s) \<Longrightarrow>
   map_of (discovered_classes (fold (discover_step_balanced e preds) ips s)) c
     = map_of (discovered_classes s) c"
proof (induction ips arbitrary: s)
  case (Cons ip ips)
  obtain i p where ip: "ip = (i, p)" by (cases ip)
  have m: "map_of (discovered_classes (discover_step_balanced e preds ip s)) c
             = map_of (discovered_classes s) c"
    using Cons.prems
    by (auto simp add: ip discover_step_balanced_eq map_of_dd_append recorded_balanced_def)
  have "c \<in> dom (class_mapping (discover_step_balanced e preds ip s))"
    using Cons.prems by (simp add: discover_step_balanced_fields)
  from Cons.IH[OF this] m show ?case by simp
qed simp

subsection \<open>The gate of the evidence ledger\<close>

text \<open>
  Claim C6. One call of the balanced discovery with a non-empty expected term \<open>e\<close> appends,
  to the observations of a class \<open>c\<close>, exactly the observations of those of the first five
  predictions that name \<open>c\<close>, whose class is not in the class mapping, whose confidence is
  strictly above 20 and whose gap to the sixth prediction is strictly above 5 (so there is a
  sixth prediction); it appends them in rank order and changes nothing else. A confidence of
  exactly 20, or a gap of exactly 5, records nothing. Without an expected term nothing is
  recorded.
\<close>

theorem balanced_evidence_gate:
  assumes "e \<noteq> []"
  shows "dd_get (discovered_classes (discover_class_mappings_balanced predictions (Some e) s)) c =
           dd_get (discovered_classes s) c
           @ map (\<lambda>(i, pred).
                  \<lparr>expected_vocab = e, disc_confidence = confidence_percent pred,
                   disc_rank = i + 1,
                   confidence_gap =
                     Some (confidence_percent pred - confidence_percent (predictions ! 5)),
                   disc_mapping_type = None\<rparr>)
               (filter (\<lambda>(i, pred). class_idx pred = c
                          \<and> class_idx pred \<notin> dom (class_mapping s)
                          \<and> confidence_percent pred > 20
                          \<and> length predictions > 5
                          \<and> confidence_percent pred - confidence_percent (predictions ! 5) > 5)
                  (enumerate 0 (take 5 predictions)))
         \<and> class_mapping (discover_class_mappings_balanced predictions (Some e) s)
             = class_mapping s
         \<and> discover_class_mappings_balanced predictions None s = s
         \<and> discover_class_mappings_balanced predictions (Some []) s = s"
proof -
  have 1: "(\<lambda>(i, pred).
                  \<lparr>expected_vocab = e, disc_confidence = confidence_percent pred,
                   disc_rank = i + 1,
                   confidence_gap =
                     Some (confidence_percent pred - confidence_percent (predictions ! 5)),
                   disc_mapping_type = None\<rparr>) = observation_balanced e predictions"
    by (auto simp: observation_balanced_def)
  have 2: "(\<lambda>(i, pred). class_idx pred = c
                          \<and> class_idx pred \<notin> dom (class_mapping s)
                          \<and> confidence_percent pred > 20
                          \<and> length predictions > 5
                          \<and> confidence_percent pred - confidence_percent (predictions ! 5) > 5)
         = (\<lambda>ip. class_idx (snd ip) = c \<and> recorded_balanced s predictions (snd ip))"
    by (auto simp: recorded_balanced_def)
  show ?thesis
    unfolding 1 2 using assms
    by (simp add: discover_class_mappings_balanced_def fold_discover_step_balanced_get
        fold_discover_step_balanced_fields)
qed

text \<open>
  Six predictions against the expected term acorn, with class 9 already mapped: class 42
  (40 percent) and class 7 (21 percent) are recorded, class 8 (exactly 20 percent) is not,
  class 9 (25 percent, mapped) is not, class 10 (20.5 percent, gap exactly 5 to the sixth at
  15.5) is not.
\<close>

definition mk_prediction :: "nat \<Rightarrow> string \<Rightarrow> real \<Rightarrow> prediction" where
  "mk_prediction r c x = \<lparr>rank = r, class_idx = c, class_name = ''class_'' @ c,
                 confidence = x / 100, confidence_percent = x\<rparr>"

definition boundary_predictions :: "prediction list" where
  "boundary_predictions =
     [mk_prediction 1 ''42'' 40, mk_prediction 2 ''9'' 25, mk_prediction 3 ''7'' 21, mk_prediction 4 ''10'' 20.5, mk_prediction 5 ''8'' 20,
      mk_prediction 6 ''11'' 15.5]"

definition fork_mapped :: analyzer where
  "fork_mapped =
     \<lparr>vocab_terms = [''acorn'', ''fork''], class_mapping = [''9'' \<mapsto> ''fork''],
      discovered_classes = [], validation_stats = Map.empty\<rparr>"

theorem balanced_evidence_gate_witness:
  "''acorn'' \<noteq> []
   \<and> map (\<lambda>c. map disc_confidence (dd_get (discovered_classes
         (discover_class_mappings_balanced boundary_predictions (Some ''acorn'') fork_mapped)) c))
       [''42'', ''9'', ''7'', ''10'', ''8'', ''11'']
     = [[40], [], [21], [], [], []]"
proof -
  have e: "''acorn'' \<noteq> []" by simp
  have "map disc_confidence (dd_get (discovered_classes
         (discover_class_mappings_balanced boundary_predictions (Some ''acorn'') fork_mapped)) c)
     = (if c = ''42'' then [40] else if c = ''7'' then [21] else [])" for c
    using balanced_evidence_gate[OF e, of boundary_predictions fork_mapped c]
    by (simp add: boundary_predictions_def fork_mapped_def mk_prediction_def dd_get_def)
  then show ?thesis by simp
qed

section \<open>Properties of the hybrid rebuild\<close>

text \<open>
  The verdict of the hybrid rebuild on the observations of one class, and the statistics it
  writes, in terms of the metrics of the specification. The high confidence of the hybrid
  analyzer is 50.
\<close>

definition hybrid_accepts :: "discovery_info list \<Rightarrow> bool" where
  "hybrid_accepts ds \<longleftrightarrow>
     (length ds = 1 \<and> avg_confidence_of ds > 50)
     \<or> (length ds \<ge> 2 \<and> avg_confidence_of ds > 35 \<and> consistency_ratio_of ds > 0.6
          \<and> occurrence_count_of ds \<ge> 2)"

definition hybrid_stats :: "discovery_info list \<Rightarrow> stats" where
  "hybrid_stats ds =
     \<lparr>vocab_term = most_common_vocab_of ds,
      evidence_count = length ds,
      avg_confidence = avg_confidence_of ds,
      consistency_ratio = consistency_ratio_of ds,
      rank_1_ratio = None,
      high_confidence_ratio = Some (high_confidence_ratio_of 50 ds),
      quality_score = avg_confidence_of ds * consistency_ratio_of ds
                        * (1 + high_confidence_ratio_of 50 ds),
      mapping_type = Some (if length ds = 1 then ''single_high_confidence''
                           else ''multiple_evidence_validated'')\<rparr>"

definition new_mappings_hybrid ::
  "(string \<rightharpoonup> string) \<Rightarrow> (string \<times> discovery_info list) list \<Rightarrow> (string \<rightharpoonup> string)" where
  "new_mappings_hybrid mapping dcs c =
     (case map_of dcs c of
        None \<Rightarrow> None
      | Some ds \<Rightarrow> if c \<notin> dom mapping \<and> hybrid_accepts ds
                  then Some (lower (most_common_vocab_of ds)) else None)"

definition new_stats_hybrid ::
  "(string \<rightharpoonup> string) \<Rightarrow> (string \<times> discovery_info list) list \<Rightarrow> (string \<rightharpoonup> stats)" where
  "new_stats_hybrid mapping dcs c =
     (case map_of dcs c of
        None \<Rightarrow> None
      | Some ds \<Rightarrow> if c \<notin> dom mapping \<and> hybrid_accepts ds
                  then Some (hybrid_stats ds) else None)"

lemma fold_tally_hybrid:
  "fold tally_hybrid ds t =
     \<lparr>vocab_counts = fold counter_incr (map expected_vocab ds) (vocab_counts t),
      total_confidence = total_confidence t + sum_list (map disc_confidence ds),
      rank_1_count = rank_1_count t,
      high_confidence_count =
        high_confidence_count t + length (filter (\<lambda>d. disc_confidence d > 50) ds)\<rparr>"
  by (induction ds arbitrary: t) (simp_all add: tally_hybrid_def)

lemma hybrid_accepts_nonempty: "hybrid_accepts ds \<Longrightarrow> ds \<noteq> []"
  by (auto simp: hybrid_accepts_def)

lemma build_step_hybrid_eq:
  "build_step_hybrid cm (c, ds) (nm, vs) =
     Inr (if c \<notin> dom cm \<and> hybrid_accepts ds
          then (nm(c \<mapsto> lower (most_common_vocab_of ds)), vs(c \<mapsto> hybrid_stats ds))
          else (nm, vs))"
proof (cases "c \<in> dom cm \<or> ds = []")
  case True
  then show ?thesis
    using hybrid_accepts_nonempty[of ds] by (auto simp: build_step_hybrid_def Let_def)
next
  case False
  then have ne: "ds \<noteq> []" and c: "c \<notin> dom cm" by auto
  have t: "fold tally_hybrid ds empty_tally =
     \<lparr>vocab_counts = counter_of (map expected_vocab ds),
      total_confidence = sum_list (map disc_confidence ds),
      rank_1_count = 0,
      high_confidence_count = length (filter (\<lambda>d. disc_confidence d > 50) ds)\<rparr>"
    by (simp add: fold_tally_hybrid empty_tally_def counter_of_def)
  have mc: "most_common_1 (counter_of (map expected_vocab ds))
           = [(most_common_vocab_of ds, occurrence_count_of ds)]"
    using most_common_1_counter_of[OF ne] by simp
  have "length ds \<noteq> 0" using ne by simp
  then have len: "length ds = 1 \<or> length ds \<ge> 2" by linarith
  have cm: "(c \<in> dom cm) = False" using c by simp
  show ?thesis
    unfolding build_step_hybrid_def prod.case t cm if_False Let_def
    using ne len
    by (auto simp: mc hybrid_accepts_def hybrid_stats_def
        avg_confidence_of_def consistency_ratio_of_def high_confidence_ratio_of_def)
qed

lemma for_each_build_step_hybrid:
  "distinct (map fst dcs) \<Longrightarrow>
   for_each (build_step_hybrid cm) dcs (nm, vs) =
     Inr (nm ++ new_mappings_hybrid cm dcs, vs ++ new_stats_hybrid cm dcs)"
proof (induction dcs arbitrary: nm vs)
  case Nil
  show ?case by (simp add: new_mappings_hybrid_def new_stats_hybrid_def map_add_def)
next
  case (Cons x xs)
  obtain c ds where x: "x = (c, ds)" by (cases x)
  from Cons.prems x have c: "map_of xs c = None" and d: "distinct (map fst xs)"
    by (simp_all add: map_of_eq_None_iff)
  let ?a = "c \<notin> dom cm \<and> hybrid_accepts ds"
  let ?nm = "if ?a then nm(c \<mapsto> lower (most_common_vocab_of ds)) else nm"
  let ?vs = "if ?a then vs(c \<mapsto> hybrid_stats ds) else vs"
  have nm: "?nm ++ new_mappings_hybrid cm xs = nm ++ new_mappings_hybrid cm ((c, ds) # xs)"
    using c by (auto simp: fun_eq_iff map_add_def new_mappings_hybrid_def split: option.splits)
  have vs: "?vs ++ new_stats_hybrid cm xs = vs ++ new_stats_hybrid cm ((c, ds) # xs)"
    using c by (auto simp: fun_eq_iff map_add_def new_stats_hybrid_def split: option.splits)
  have "for_each (build_step_hybrid cm) (x # xs) (nm, vs)
          = for_each (build_step_hybrid cm) xs (?nm, ?vs)"
    by (simp add: x build_step_hybrid_eq)
  also have "\<dots> = Inr (?nm ++ new_mappings_hybrid cm xs, ?vs ++ new_stats_hybrid cm xs)"
    by (rule Cons.IH[OF d])
  also have "\<dots> = Inr (nm ++ new_mappings_hybrid cm (x # xs), vs ++ new_stats_hybrid cm (x # xs))"
    by (simp only: nm vs x)
  finally show ?case .
qed

lemma build_class_mapping_hybrid_eq:
  assumes "distinct (map fst (discovered_classes s))"
  shows "build_class_mapping_hybrid s =
     Inr (new_mappings_hybrid (class_mapping s) (discovered_classes s),
          s\<lparr>validation_stats :=
              validation_stats s ++ new_stats_hybrid (class_mapping s) (discovered_classes s),
            class_mapping :=
              class_mapping s ++ new_mappings_hybrid (class_mapping s) (discovered_classes s)\<rparr>)"
  by (simp add: build_class_mapping_hybrid_def for_each_build_step_hybrid[OF assms])

lemma new_mappings_hybrid_again:
  "new_mappings_hybrid (cm ++ new_mappings_hybrid cm dcs) dcs = Map.empty"
  by (auto simp: fun_eq_iff new_mappings_hybrid_def map_add_def dom_def split: option.splits)

section \<open>Rebuilding twice\<close>

lemma new_mappings_balanced_absorb:
  "(cm ++ new_mappings_balanced dcs) ++ new_mappings_balanced dcs = cm ++ new_mappings_balanced dcs"
  by (simp add: fun_eq_iff map_add_def split: option.splits)

lemma new_stats_balanced_absorb:
  "(vs ++ new_stats_balanced dcs) ++ new_stats_balanced dcs = vs ++ new_stats_balanced dcs"
  by (simp add: fun_eq_iff map_add_def split: option.splits)

lemma new_stats_hybrid_again:
  "new_stats_hybrid (cm ++ new_mappings_hybrid cm dcs) dcs = Map.empty"
  by (auto simp: fun_eq_iff new_stats_hybrid_def new_mappings_hybrid_def map_add_def dom_def
      split: option.splits)

lemmas hybrid_eval =
  build_class_mapping_hybrid_def build_step_hybrid_def Let_def tally_hybrid_def
  empty_tally_def counter_incr_def lower_def lower_char_def observation_def

text \<open>
  Claim C4, as the code has it. With no observation recorded in between, the second hybrid
  rebuild returns an empty \<^verbatim>\<open>new_mappings\<close> and changes nothing: every class accepted by the
  first is in the class mapping and is skipped. The balanced rebuild has no such test and keeps
  the observations of the classes it has accepted: its second call returns the same
  \<^verbatim>\<open>new_mappings\<close> as its first, and leaves the state as the first call left it.
\<close>

theorem rebuild_twice:
  assumes "distinct (map fst (discovered_classes s))"
  shows "(\<exists>nm1 s1. build_class_mapping_hybrid s = Inr (nm1, s1)
            \<and> build_class_mapping_hybrid s1 = Inr (Map.empty, s1))
       \<and> (\<exists>nm1 s1. build_class_mapping_balanced s = Inr (nm1, s1)
            \<and> build_class_mapping_balanced s1 = Inr (nm1, s1))"
proof -
  let ?dcs = "discovered_classes s"
  let ?hm = "new_mappings_hybrid (class_mapping s) ?dcs"
  let ?h1 = "s\<lparr>validation_stats := validation_stats s ++ new_stats_hybrid (class_mapping s) ?dcs,
               class_mapping := class_mapping s ++ ?hm\<rparr>"
  have h1: "build_class_mapping_hybrid s = Inr (?hm, ?h1)"
    by (rule build_class_mapping_hybrid_eq[OF assms])
  have dh: "distinct (map fst (discovered_classes ?h1))" using assms by simp
  have h2: "build_class_mapping_hybrid ?h1 = Inr (Map.empty, ?h1)"
    by (simp add: build_class_mapping_hybrid_eq[OF dh] new_mappings_hybrid_again
        new_stats_hybrid_again)
  let ?bm = "new_mappings_balanced ?dcs"
  let ?b1 = "s\<lparr>validation_stats := validation_stats s ++ new_stats_balanced ?dcs,
               class_mapping := class_mapping s ++ ?bm\<rparr>"
  have b1: "build_class_mapping_balanced s = Inr (?bm, ?b1)"
    by (rule build_class_mapping_balanced_eq[OF assms])
  have db: "distinct (map fst (discovered_classes ?b1))" using assms by simp
  have b2: "build_class_mapping_balanced ?b1 = Inr (?bm, ?b1)"
    by (simp add: build_class_mapping_balanced_eq[OF db] new_mappings_balanced_absorb
        new_stats_balanced_absorb)
  from h1 h2 b1 b2 show ?thesis by blast
qed

theorem rebuild_twice_witness:
  "distinct (map fst (discovered_classes two_classes))
   \<and> (\<exists>nm1 s1. build_class_mapping_hybrid two_classes = Inr (nm1, s1)
            \<and> nm1 ''42'' = Some ''acorn''
            \<and> build_class_mapping_hybrid s1 = Inr (Map.empty, s1))
   \<and> (\<exists>nm1 s1. build_class_mapping_balanced two_classes = Inr (nm1, s1)
            \<and> nm1 ''42'' = Some ''acorn''
            \<and> build_class_mapping_balanced s1 = Inr (nm1, s1))"
proof -
  have d: "distinct (map fst (discovered_classes two_classes))" by (simp add: two_classes_def)
  from rebuild_twice[OF d] obtain hm h1 bm b1 where
    h: "build_class_mapping_hybrid two_classes = Inr (hm, h1)"
       "build_class_mapping_hybrid h1 = Inr (Map.empty, h1)" and
    b: "build_class_mapping_balanced two_classes = Inr (bm, b1)"
       "build_class_mapping_balanced b1 = Inr (bm, b1)"
    by blast
  from h(1) have hm: "hm ''42'' = Some ''acorn''"
    by (auto simp add: hybrid_eval two_classes_def)
  from b(1) have bm: "bm ''42'' = Some ''acorn''"
    by (auto simp add: balanced_eval two_classes_def)
  from d h hm b bm show ?thesis by blast
qed

text \<open>
  The claim as stated fails for the balanced analyzer: on the state \<open>two_classes\<close>, the second
  of two rebuilds in a row returns class 42 again.
\<close>

theorem balanced_second_rebuild_counterexample:
  "(case build_class_mapping_balanced two_classes of
      Inl e \<Rightarrow> None
    | Inr (nm1, s1) \<Rightarrow>
        (case build_class_mapping_balanced s1 of
           Inl e \<Rightarrow> None
         | Inr (nm2, s2) \<Rightarrow> nm2 ''42'')) = Some ''acorn''"
  by (simp add: balanced_eval two_classes_def)

section \<open>The quality score of an accepted class\<close>

text \<open>
  Claim C5, as the code has it. For a class that a rebuild accepts, with \<open>ds\<close> the observations
  recorded for it: the balanced rebuild writes the quality score
  \<open>avg_confidence * consistency_ratio * (rank_1_ratio + high_confidence_ratio)\<close>, with the high
  confidence at 30; the hybrid rebuild writes
  \<open>avg_confidence * consistency_ratio * (1 + high_confidence_ratio)\<close>, with the high confidence
  at 50, and keeps no rank-1 ratio. Neither rebuild removes an observation. The hybrid rebuild
  puts the class into the class mapping, and a rebuild that follows returns nothing; the
  balanced rebuild that follows evaluates the same observations and returns the same
  \<^verbatim>\<open>new_mappings\<close> again.
\<close>

theorem quality_score_of_accepted:
  assumes "distinct (map fst (discovered_classes s))"
  shows "(\<forall>nm s' c t. build_class_mapping_balanced s = Inr (nm, s') \<and> nm c = Some t \<longrightarrow>
           (\<exists>ds st. map_of (discovered_classes s) c = Some ds
              \<and> validation_stats s' c = Some st
              \<and> quality_score st =
                  avg_confidence_of ds * consistency_ratio_of ds
                    * (rank_1_ratio_of ds + high_confidence_ratio_of 30 ds)
              \<and> discovered_classes s' = discovered_classes s
              \<and> build_class_mapping_balanced s' = Inr (nm, s')))
       \<and> (\<forall>nm s' c t. build_class_mapping_hybrid s = Inr (nm, s') \<and> nm c = Some t \<longrightarrow>
           (\<exists>ds st. map_of (discovered_classes s) c = Some ds
              \<and> validation_stats s' c = Some st
              \<and> quality_score st =
                  avg_confidence_of ds * consistency_ratio_of ds
                    * (1 + high_confidence_ratio_of 50 ds)
              \<and> discovered_classes s' = discovered_classes s
              \<and> class_mapping s' c = Some t
              \<and> build_class_mapping_hybrid s' = Inr (Map.empty, s')))"
proof (intro conjI allI impI)
  fix nm s' c t
  assume a: "build_class_mapping_balanced s = Inr (nm, s') \<and> nm c = Some t"
  let ?dcs = "discovered_classes s"
  from a build_class_mapping_balanced_eq[OF assms]
  have nm: "nm = new_mappings_balanced ?dcs"
    and s': "s' = s\<lparr>validation_stats := validation_stats s ++ new_stats_balanced ?dcs,
               class_mapping := class_mapping s ++ new_mappings_balanced ?dcs\<rparr>"
    by auto
  from a nm obtain ds where ds: "map_of ?dcs c = Some ds" "balanced_accepts ds"
    by (auto simp: new_mappings_balanced_def split: option.splits if_splits)
  have st: "validation_stats s' c = Some (balanced_stats ds)"
    using ds by (simp add: s' new_stats_balanced_def map_add_def)
  have q: "quality_score (balanced_stats ds) =
             avg_confidence_of ds * consistency_ratio_of ds
               * (rank_1_ratio_of ds + high_confidence_ratio_of 30 ds)"
    by (simp add: balanced_stats_def)
  have d': "discovered_classes s' = ?dcs" by (simp add: s')
  have dd: "distinct (map fst (discovered_classes s'))" using assms d' by simp
  have again: "build_class_mapping_balanced s' = Inr (nm, s')"
    unfolding build_class_mapping_balanced_eq[OF dd] d'
    by (simp add: s' nm new_mappings_balanced_absorb new_stats_balanced_absorb)
  show "\<exists>ds st. map_of ?dcs c = Some ds
              \<and> validation_stats s' c = Some st
              \<and> quality_score st =
                  avg_confidence_of ds * consistency_ratio_of ds
                    * (rank_1_ratio_of ds + high_confidence_ratio_of 30 ds)
              \<and> discovered_classes s' = ?dcs
              \<and> build_class_mapping_balanced s' = Inr (nm, s')"
    using ds(1) st q d' again by blast
next
  fix nm s' c t
  assume a: "build_class_mapping_hybrid s = Inr (nm, s') \<and> nm c = Some t"
  let ?dcs = "discovered_classes s"
  let ?cm = "class_mapping s"
  from a build_class_mapping_hybrid_eq[OF assms]
  have nm: "nm = new_mappings_hybrid ?cm ?dcs"
    and s': "s' = s\<lparr>validation_stats := validation_stats s ++ new_stats_hybrid ?cm ?dcs,
               class_mapping := ?cm ++ new_mappings_hybrid ?cm ?dcs\<rparr>"
    by auto
  from a nm obtain ds where ds: "map_of ?dcs c = Some ds" "hybrid_accepts ds" "c \<notin> dom ?cm"
    by (auto simp: new_mappings_hybrid_def split: option.splits if_splits)
  have st: "validation_stats s' c = Some (hybrid_stats ds)"
    using ds by (simp add: s' new_stats_hybrid_def map_add_def)
  have q: "quality_score (hybrid_stats ds) =
             avg_confidence_of ds * consistency_ratio_of ds
               * (1 + high_confidence_ratio_of 50 ds)"
    by (simp add: hybrid_stats_def)
  have d': "discovered_classes s' = ?dcs" by (simp add: s')
  have dd: "distinct (map fst (discovered_classes s'))" using assms d' by simp
  have cm': "class_mapping s' c = Some t" using a by (simp add: s' nm map_add_def)
  have again: "build_class_mapping_hybrid s' = Inr (Map.empty, s')"
    unfolding build_class_mapping_hybrid_eq[OF dd] d'
    by (simp add: s' new_mappings_hybrid_again new_stats_hybrid_again)
  show "\<exists>ds st. map_of ?dcs c = Some ds
              \<and> validation_stats s' c = Some st
              \<and> quality_score st =
                  avg_confidence_of ds * consistency_ratio_of ds
                    * (1 + high_confidence_ratio_of 50 ds)
              \<and> discovered_classes s' = ?dcs
              \<and> class_mapping s' c = Some t
              \<and> build_class_mapping_hybrid s' = Inr (Map.empty, s')"
    using ds(1) st q d' cm' again by blast
qed

text \<open>
  Two cells of one image, expected term acorn: class 42 is first at 40 percent in one cell and
  second at 40 percent in the other. The hybrid discovery records both observations, and
  one of class 9 at 45 percent.
\<close>

definition cell_a :: "prediction list" where
  "cell_a = [mk_prediction 1 ''42'' 40, mk_prediction 2 ''7'' 20, mk_prediction 3 ''8'' 10]"

definition cell_b :: "prediction list" where
  "cell_b = [mk_prediction 1 ''9'' 45, mk_prediction 2 ''42'' 40, mk_prediction 3 ''8'' 5]"

definition seen_twice :: analyzer where
  "seen_twice =
     discover_class_mappings_hybrid cell_b (Some ''acorn'')
       (discover_class_mappings_hybrid cell_a (Some ''acorn'') (init_analyzer [''acorn'']))"

lemmas discover_hybrid_eval =
  discover_class_mappings_hybrid_def discover_step_hybrid_def dd_append_def dd_get_def
  mk_prediction_def init_analyzer_def lower_def lower_char_def

lemma seen_twice_eq:
  "seen_twice =
     \<lparr>vocab_terms = [''acorn''], class_mapping = Map.empty,
      discovered_classes =
        [(''42'', [\<lparr>expected_vocab = ''acorn'', disc_confidence = 40, disc_rank = 1,
                    confidence_gap = None,
                    disc_mapping_type = Some ''multiple_evidence_required''\<rparr>,
                  \<lparr>expected_vocab = ''acorn'', disc_confidence = 40, disc_rank = 2,
                    confidence_gap = None,
                    disc_mapping_type = Some ''multiple_evidence_required''\<rparr>]),
         (''9'', [\<lparr>expected_vocab = ''acorn'', disc_confidence = 45, disc_rank = 1,
                   confidence_gap = None,
                   disc_mapping_type = Some ''multiple_evidence_required''\<rparr>])],
      validation_stats = Map.empty\<rparr>"
  by (simp add: seen_twice_def cell_a_def cell_b_def discover_hybrid_eval)

theorem quality_score_of_accepted_witness:
  "distinct (map fst (discovered_classes seen_twice))
   \<and> (\<exists>nm s' st. build_class_mapping_hybrid seen_twice = Inr (nm, s')
        \<and> nm ''42'' = Some ''acorn''
        \<and> validation_stats s' ''42'' = Some st \<and> quality_score st = 40
        \<and> build_class_mapping_hybrid s' = Inr (Map.empty, s'))
   \<and> (\<exists>nm s' st. build_class_mapping_balanced two_classes = Inr (nm, s')
        \<and> nm ''42'' = Some ''acorn''
        \<and> validation_stats s' ''42'' = Some st \<and> quality_score st = 80
        \<and> build_class_mapping_balanced s' = Inr (nm, s'))"
proof -
  have d: "distinct (map fst (discovered_classes seen_twice))" by (simp add: seen_twice_eq)
  have d2: "distinct (map fst (discovered_classes two_classes))" by (simp add: two_classes_def)
  obtain nm s' where h: "build_class_mapping_hybrid seen_twice = Inr (nm, s')"
    using build_class_mapping_hybrid_eq[OF d] by blast
  then have nm: "nm ''42'' = Some ''acorn''"
    by (auto simp add: seen_twice_eq hybrid_eval)
  from quality_score_of_accepted[OF d] h nm
  obtain ds st where st: "map_of (discovered_classes seen_twice) ''42'' = Some ds"
    "validation_stats s' ''42'' = Some st"
    "quality_score st = avg_confidence_of ds * consistency_ratio_of ds
                    * (1 + high_confidence_ratio_of 50 ds)"
    "build_class_mapping_hybrid s' = Inr (Map.empty, s')"
    by blast
  from st(1,3) have q: "quality_score st = 40"
    by (auto simp add: seen_twice_eq avg_confidence_of_def
      consistency_ratio_of_def high_confidence_ratio_of_def
      occurrence_count_of_def term_count_def)
  obtain bm b' where b: "build_class_mapping_balanced two_classes = Inr (bm, b')"
    using build_class_mapping_balanced_eq[OF d2] by blast
  then have bm: "bm ''42'' = Some ''acorn''"
    by (auto simp add: two_classes_def balanced_eval)
  from quality_score_of_accepted[OF d2] b bm
  obtain bds bst where bst: "map_of (discovered_classes two_classes) ''42'' = Some bds"
    "validation_stats b' ''42'' = Some bst"
    "quality_score bst = avg_confidence_of bds * consistency_ratio_of bds
                    * (rank_1_ratio_of bds + high_confidence_ratio_of 30 bds)"
    "build_class_mapping_balanced b' = Inr (bm, b')"
    by blast
  from bst(1,3) have bq: "quality_score bst = 80"
    by (auto simp add: two_classes_def observation_def avg_confidence_of_def
      consistency_ratio_of_def high_confidence_ratio_of_def rank_1_ratio_of_def
      occurrence_count_of_def term_count_def)
  from d h nm st(2,4) q b bm bst(2,4) bq show ?thesis by blast
qed

text \<open>
  The claim as stated fails for the hybrid analyzer: for class 42 in \<open>seen_twice\<close> the rebuild
  writes the quality score 40, and the product of the claim, with the rank-1 ratio 1/2 and
  the high-confidence ratio 0, is 20.
\<close>

theorem hybrid_quality_score_counterexample:
  "(case build_class_mapping_hybrid seen_twice of
      Inl e \<Rightarrow> None
    | Inr (nm, s') \<Rightarrow> map_option quality_score (validation_stats s' ''42'')) = Some 40
   \<and> avg_confidence_of (dd_get (discovered_classes seen_twice) ''42'')
       * consistency_ratio_of (dd_get (discovered_classes seen_twice) ''42'')
       * (rank_1_ratio_of (dd_get (discovered_classes seen_twice) ''42'')
          + high_confidence_ratio_of 50 (dd_get (discovered_classes seen_twice) ''42'')) = 20"
  by (simp add: seen_twice_eq hybrid_eval dd_get_def avg_confidence_of_def
      consistency_ratio_of_def rank_1_ratio_of_def high_confidence_ratio_of_def
      occurrence_count_of_def term_count_def)

section \<open>Properties of the hybrid discovery\<close>

lemma discover_step_hybrid_other:
  assumes "class_idx (snd ip) \<noteq> c"
  shows "class_mapping (discover_step_hybrid e ip s) c = class_mapping s c"
    and "validation_stats (discover_step_hybrid e ip s) c = validation_stats s c"
    and "map_of (discovered_classes (discover_step_hybrid e ip s)) c
           = map_of (discovered_classes s) c"
  using assms
  by (cases ip; simp add: discover_step_hybrid_def map_of_dd_append)+

lemma discover_step_hybrid_mapped:
  assumes "class_mapping s c = Some t"
  shows "class_mapping (discover_step_hybrid e ip s) c = Some t"
    and "validation_stats (discover_step_hybrid e ip s) c = validation_stats s c"
    and "map_of (discovered_classes (discover_step_hybrid e ip s)) c
           = map_of (discovered_classes s) c"
proof -
  obtain i p where ip: "ip = (i, p)" by (cases ip)
  show "class_mapping (discover_step_hybrid e ip s) c = Some t"
    and "validation_stats (discover_step_hybrid e ip s) c = validation_stats s c"
    and "map_of (discovered_classes (discover_step_hybrid e ip s)) c
           = map_of (discovered_classes s) c"
    using assms by (auto simp add: ip discover_step_hybrid_def map_of_dd_append dom_def)
qed

lemma discover_step_hybrid_distinct:
  "distinct (map fst (discovered_classes s)) \<Longrightarrow>
   distinct (map fst (discovered_classes (discover_step_hybrid e ip s)))"
  by (cases ip) (simp add: discover_step_hybrid_def distinct_dd_append)

lemma fold_discover_step_hybrid_other:
  assumes "c \<notin> class_idx ` snd ` set ips"
  shows "class_mapping (fold (discover_step_hybrid e) ips s) c = class_mapping s c
    \<and> validation_stats (fold (discover_step_hybrid e) ips s) c = validation_stats s c
    \<and> map_of (discovered_classes (fold (discover_step_hybrid e) ips s)) c
           = map_of (discovered_classes s) c"
  using assms
proof (induction ips arbitrary: s)
  case (Cons ip ips)
  then have ne: "class_idx (snd ip) \<noteq> c" and rest: "c \<notin> class_idx ` snd ` set ips" by auto
  show ?case using Cons.IH[OF rest, of "discover_step_hybrid e ip s"]
    by (simp add: discover_step_hybrid_other[OF ne])
qed simp

lemma fold_discover_step_hybrid_mapped:
  assumes "class_mapping s c = Some t"
  shows "class_mapping (fold (discover_step_hybrid e) ips s) c = Some t
    \<and> validation_stats (fold (discover_step_hybrid e) ips s) c = validation_stats s c
    \<and> map_of (discovered_classes (fold (discover_step_hybrid e) ips s)) c
           = map_of (discovered_classes s) c"
  using assms
proof (induction ips arbitrary: s)
  case (Cons ip ips)
  show ?case
    using Cons.IH[OF discover_step_hybrid_mapped(1)[OF Cons.prems, of e ip]]
    by (simp add: discover_step_hybrid_mapped(2,3)[OF Cons.prems])
qed simp

lemma fold_discover_step_hybrid_distinct:
  "distinct (map fst (discovered_classes s)) \<Longrightarrow>
   distinct (map fst (discovered_classes (fold (discover_step_hybrid e) ips s)))"
  by (induction ips arbitrary: s) (simp_all add: discover_step_hybrid_distinct)

definition immediate_stats :: "string \<Rightarrow> real \<Rightarrow> stats" where
  "immediate_stats e conf =
     \<lparr>vocab_term = e, evidence_count = 1, avg_confidence = conf, consistency_ratio = 1,
      rank_1_ratio = None, high_confidence_ratio = None, quality_score = conf,
      mapping_type = Some ''immediate_high_confidence''\<rparr>"

lemma fold_discover_step_hybrid_immediate:
  assumes "distinct (map (\<lambda>ip. class_idx (snd ip)) ips)" "(i, p) \<in> set ips"
    "confidence_percent p > 70" "class_idx p \<notin> dom (class_mapping s)"
  shows "class_mapping (fold (discover_step_hybrid e) ips s) (class_idx p) = Some (lower e)
    \<and> validation_stats (fold (discover_step_hybrid e) ips s) (class_idx p)
         = Some (immediate_stats e (confidence_percent p))
    \<and> map_of (discovered_classes (fold (discover_step_hybrid e) ips s)) (class_idx p)
         = map_of (discovered_classes s) (class_idx p)"
  using assms
proof (induction ips arbitrary: s)
  case Nil
  then show ?case by simp
next
  case (Cons x xs)
  let ?c = "class_idx p"
  let ?s = "discover_step_hybrid e x s"
  show ?case
  proof (cases "x = (i, p)")
    case True
    from Cons.prems(1) True have notin: "?c \<notin> class_idx ` snd ` set xs" by auto
    have step: "class_mapping ?s ?c = Some (lower e)"
      "validation_stats ?s ?c = Some (immediate_stats e (confidence_percent p))"
      "map_of (discovered_classes ?s) ?c = map_of (discovered_classes s) ?c"
      using Cons.prems(3,4) by (simp_all add: True discover_step_hybrid_def immediate_stats_def)
    from fold_discover_step_hybrid_other[OF notin, of e ?s] step
    show ?thesis by simp
  next
    case False
    with Cons.prems(2) have mem: "(i, p) \<in> set xs" by simp
    with Cons.prems(1) have ne: "class_idx (snd x) \<noteq> ?c" by force
    from Cons.prems(1) have d: "distinct (map (\<lambda>ip. class_idx (snd ip)) xs)" by simp
    have nd: "?c \<notin> dom (class_mapping ?s)"
      using Cons.prems(4) discover_step_hybrid_other(1)[OF ne, of e s] by (simp add: dom_def)
    from Cons.IH[OF d mem Cons.prems(3) nd] discover_step_hybrid_other(3)[OF ne, of e s]
    show ?thesis by simp
  qed
qed

subsection \<open>The immediate mapping\<close>

text \<open>
  Claim C2. The class indices of the predictions of one classifier call are distinct. When one
  of the first three predictions has a confidence strictly above 70 and its class is not
  mapped, one call of the hybrid discovery with a non-empty expected term \<open>e\<close> maps the class
  to \<open>e\<close> in lower case and writes its statistics with evidence count 1, consistency ratio 1
  and the confidence as average confidence and as quality score; it appends no observation
  for the class, and no rebuild is needed.
\<close>

theorem hybrid_fast_path:
  assumes "e \<noteq> []" "i < 3" "i < length predictions"
    "distinct (map class_idx (take 3 predictions))"
    "confidence_percent (predictions ! i) > 70"
    "class_idx (predictions ! i) \<notin> dom (class_mapping s)"
  shows "class_mapping (discover_class_mappings_hybrid predictions (Some e) s)
           (class_idx (predictions ! i)) = Some (lower e)
       \<and> validation_stats (discover_class_mappings_hybrid predictions (Some e) s)
           (class_idx (predictions ! i))
         = Some \<lparr>vocab_term = e, evidence_count = 1,
                 avg_confidence = confidence_percent (predictions ! i),
                 consistency_ratio = 1, rank_1_ratio = None, high_confidence_ratio = None,
                 quality_score = confidence_percent (predictions ! i),
                 mapping_type = Some ''immediate_high_confidence''\<rparr>
       \<and> dd_get (discovered_classes (discover_class_mappings_hybrid predictions (Some e) s))
           (class_idx (predictions ! i))
         = dd_get (discovered_classes s) (class_idx (predictions ! i))"
proof -
  let ?ips = "enumerate 0 (take 3 predictions)"
  let ?p = "predictions ! i"
  have "map (\<lambda>ip. class_idx (snd ip)) ?ips = map class_idx (map snd ?ips)"
    unfolding map_map comp_def ..
  then have d: "distinct (map (\<lambda>ip. class_idx (snd ip)) ?ips)"
    using assms(4) by (simp only: map_snd_enumerate)
  have mem: "(i, ?p) \<in> set ?ips"
    using assms(2,3) by (simp add: in_set_enumerate_eq)
  from fold_discover_step_hybrid_immediate[OF d mem assms(5,6), of e]
  show ?thesis
    using assms(1)
    by (simp add: discover_class_mappings_hybrid_def immediate_stats_def dd_get_def)
qed

text \<open>
  A cell whose first prediction is class 42 at 71 percent, against the expected term Acorn, on
  a fresh analyzer.
\<close>

definition obvious_cell :: "prediction list" where
  "obvious_cell = [mk_prediction 1 ''42'' 71, mk_prediction 2 ''7'' 20, mk_prediction 3 ''8'' 5]"

theorem hybrid_fast_path_witness:
  "''Acorn'' \<noteq> [] \<and> (0::nat) < 3 \<and> 0 < length obvious_cell
   \<and> distinct (map class_idx (take 3 obvious_cell))
   \<and> confidence_percent (obvious_cell ! 0) > 70
   \<and> class_idx (obvious_cell ! 0) \<notin> dom (class_mapping (init_analyzer [''Acorn'']))
   \<and> class_mapping
        (discover_class_mappings_hybrid obvious_cell (Some ''Acorn'') (init_analyzer [''Acorn'']))
        ''42'' = Some ''acorn''
   \<and> map_option quality_score
        (validation_stats
          (discover_class_mappings_hybrid obvious_cell (Some ''Acorn'') (init_analyzer [''Acorn'']))
          ''42'') = Some 71
   \<and> dd_get (discovered_classes
        (discover_class_mappings_hybrid obvious_cell (Some ''Acorn'') (init_analyzer [''Acorn''])))
        ''42'' = []"
proof -
  have h: "''Acorn'' \<noteq> []" "(0::nat) < 3" "0 < length obvious_cell"
    "distinct (map class_idx (take 3 obvious_cell))"
    "confidence_percent (obvious_cell ! 0) > 70"
    "class_idx (obvious_cell ! 0) \<notin> dom (class_mapping (init_analyzer [''Acorn'']))"
    by (simp_all add: obvious_cell_def mk_prediction_def init_analyzer_def)
  have c: "class_idx (obvious_cell ! 0) = ''42''" "confidence_percent (obvious_cell ! 0) = 71"
    by (simp_all add: obvious_cell_def mk_prediction_def)
  have l: "lower ''Acorn'' = ''acorn''" by (simp add: lower_def lower_char_def)
  have g: "dd_get (discovered_classes (init_analyzer [''Acorn''])) ''42'' = []"
    by (simp add: init_analyzer_def dd_get_def)
  from hybrid_fast_path[OF h] h show ?thesis
    unfolding c l g by simp
qed

section \<open>The class mapping over a run\<close>

text \<open>
  The invariant of a run: the keys of \<^verbatim>\<open>discovered_classes\<close> are distinct, and in the balanced
  analyzer every class in the class mapping is one whose recorded observations the rebuild
  accepts, with the mapped term. The balanced discovery records nothing for a mapped class, so
  the observations of a mapped class stay as they were when it was accepted.
\<close>

definition run_inv :: "policy \<Rightarrow> 'a analyzer_scheme \<Rightarrow> bool" where
  "run_inv p s \<longleftrightarrow>
     distinct (map fst (discovered_classes s))
     \<and> (p = Balanced \<longrightarrow>
          (\<forall>c t. class_mapping s c = Some t \<longrightarrow>
             new_mappings_balanced (discovered_classes s) c = Some t))"

lemma run_inv_init: "run_inv p (init_analyzer terms)"
  by (simp add: run_inv_def init_analyzer_def)

lemma new_mappings_balanced_cong:
  "map_of dcs c = map_of dcs' c \<Longrightarrow> new_mappings_balanced dcs c = new_mappings_balanced dcs' c"
  by (simp add: new_mappings_balanced_def)

lemma discover_balanced_keeps:
  assumes "run_inv Balanced s"
  shows "run_inv Balanced (discover_class_mappings_balanced preds e s)"
    and "class_mapping (discover_class_mappings_balanced preds e s) = class_mapping s"
proof -
  let ?s = "discover_class_mappings_balanced preds e s"
  show cm: "class_mapping ?s = class_mapping s"
    by (simp add: discover_class_mappings_balanced_def fold_discover_step_balanced_fields)
  have d: "distinct (map fst (discovered_classes ?s))"
    using assms
    by (simp add: run_inv_def discover_class_mappings_balanced_def
        fold_discover_step_balanced_distinct)
  have "new_mappings_balanced (discovered_classes ?s) c = Some t"
    if "class_mapping ?s c = Some t" for c t
  proof -
    from that cm have m: "class_mapping s c = Some t" by simp
    then have "c \<in> dom (class_mapping s)" by auto
    then have "map_of (discovered_classes ?s) c = map_of (discovered_classes s) c"
      by (simp add: discover_class_mappings_balanced_def fold_discover_step_balanced_mapped)
    from new_mappings_balanced_cong[OF this] assms m show ?thesis
      by (simp add: run_inv_def)
  qed
  with d show "run_inv Balanced ?s" by (simp add: run_inv_def)
qed

lemma discover_hybrid_keeps:
  assumes "run_inv Hybrid s"
  shows "run_inv Hybrid (discover_class_mappings_hybrid preds e s)"
    and "class_mapping s c = Some t \<Longrightarrow>
         class_mapping (discover_class_mappings_hybrid preds e s) c = Some t"
proof -
  show "run_inv Hybrid (discover_class_mappings_hybrid preds e s)"
    using assms
    by (simp add: run_inv_def discover_class_mappings_hybrid_def
        fold_discover_step_hybrid_distinct)
  show "class_mapping (discover_class_mappings_hybrid preds e s) c = Some t"
    if "class_mapping s c = Some t"
    using that fold_discover_step_hybrid_mapped[OF that]
    by (simp add: discover_class_mappings_hybrid_def)
qed

definition mapping_kept :: "'a analyzer_scheme \<Rightarrow> 'a analyzer_scheme \<Rightarrow> bool" where
  "mapping_kept s s' \<longleftrightarrow> (\<forall>c t. class_mapping s c = Some t \<longrightarrow> class_mapping s' c = Some t)"

lemma mapping_kept_trans: "mapping_kept s s' \<Longrightarrow> mapping_kept s' s'' \<Longrightarrow> mapping_kept s s''"
  by (simp add: mapping_kept_def)

lemma build_class_mapping_balanced_obtain:
  assumes "distinct (map fst (discovered_classes s))"
  obtains s' where
    "build_class_mapping_balanced s = Inr (new_mappings_balanced (discovered_classes s), s')"
    "class_mapping s' = class_mapping s ++ new_mappings_balanced (discovered_classes s)"
    "discovered_classes s' = discovered_classes s"
proof -
  let ?s' = "s\<lparr>validation_stats := validation_stats s ++ new_stats_balanced (discovered_classes s),
               class_mapping := class_mapping s ++ new_mappings_balanced (discovered_classes s)\<rparr>"
  have "build_class_mapping_balanced s = Inr (new_mappings_balanced (discovered_classes s), ?s')"
    by (rule build_class_mapping_balanced_eq[OF assms])
  moreover have "class_mapping ?s' = class_mapping s ++ new_mappings_balanced (discovered_classes s)"
    by simp
  moreover have "discovered_classes ?s' = discovered_classes s" by simp
  ultimately show thesis by (rule that)
qed

lemma build_class_mapping_hybrid_obtain:
  assumes "distinct (map fst (discovered_classes s))"
  obtains s' where
    "build_class_mapping_hybrid s
       = Inr (new_mappings_hybrid (class_mapping s) (discovered_classes s), s')"
    "class_mapping s'
       = class_mapping s ++ new_mappings_hybrid (class_mapping s) (discovered_classes s)"
    "discovered_classes s' = discovered_classes s"
proof -
  let ?nm = "new_mappings_hybrid (class_mapping s) (discovered_classes s)"
  let ?s' = "s\<lparr>validation_stats :=
                 validation_stats s ++ new_stats_hybrid (class_mapping s) (discovered_classes s),
               class_mapping := class_mapping s ++ ?nm\<rparr>"
  have "build_class_mapping_hybrid s = Inr (?nm, ?s')"
    by (rule build_class_mapping_hybrid_eq[OF assms])
  moreover have "class_mapping ?s' = class_mapping s ++ ?nm" by simp
  moreover have "discovered_classes ?s' = discovered_classes s" by simp
  ultimately show thesis by (rule that)
qed

lemma build_balanced_keeps:
  assumes "run_inv Balanced s"
  shows "\<exists>nm s'. build_class_mapping_balanced s = Inr (nm, s') \<and> run_inv Balanced s'
           \<and> mapping_kept s s'"
proof -
  from assms have d: "distinct (map fst (discovered_classes s))"
    and i: "\<And>c t. class_mapping s c = Some t \<Longrightarrow>
                new_mappings_balanced (discovered_classes s) c = Some t"
    by (simp_all add: run_inv_def)
  let ?nm = "new_mappings_balanced (discovered_classes s)"
  from build_class_mapping_balanced_obtain[OF d] obtain s' where
    b: "build_class_mapping_balanced s = Inr (?nm, s')"
    and cm: "class_mapping s' = class_mapping s ++ ?nm"
    and dc: "discovered_classes s' = discovered_classes s"
    by blast
  have mono: "mapping_kept s s'"
    unfolding mapping_kept_def cm
  proof (intro allI impI)
    fix c t assume "class_mapping s c = Some t"
    from i[OF this] show "(class_mapping s ++ ?nm) c = Some t" by (simp add: map_add_def)
  qed
  have "?nm c = Some t" if "class_mapping s' c = Some t" for c t
  proof (cases "?nm c")
    case None
    with that have "class_mapping s c = Some t" by (simp add: cm map_add_def)
    from i[OF this] show ?thesis .
  next
    case (Some t')
    with that show ?thesis by (simp add: cm map_add_def)
  qed
  then have inv: "run_inv Balanced s'" using d by (simp add: run_inv_def dc)
  from b inv mono show ?thesis by (intro exI[of _ ?nm] exI[of _ s'] conjI)
qed

lemma build_hybrid_keeps:
  assumes "run_inv Hybrid s"
  shows "\<exists>nm s'. build_class_mapping_hybrid s = Inr (nm, s') \<and> run_inv Hybrid s'
           \<and> mapping_kept s s'"
proof -
  from assms have d: "distinct (map fst (discovered_classes s))"
    by (simp add: run_inv_def)
  let ?nm = "new_mappings_hybrid (class_mapping s) (discovered_classes s)"
  from build_class_mapping_hybrid_obtain[OF d] obtain s' where
    b: "build_class_mapping_hybrid s = Inr (?nm, s')"
    and cm: "class_mapping s' = class_mapping s ++ ?nm"
    and dc: "discovered_classes s' = discovered_classes s"
    by blast
  have mono: "mapping_kept s s'"
    unfolding mapping_kept_def cm
  proof (intro allI impI)
    fix c t assume a: "class_mapping s c = Some t"
    then have "?nm c = None"
      by (simp add: new_mappings_hybrid_def dom_def split: option.splits)
    with a show "(class_mapping s ++ ?nm) c = Some t" by (simp add: map_add_def)
  qed
  have inv: "run_inv Hybrid s'" using d by (simp add: run_inv_def dc)
  from b inv mono show ?thesis by (intro exI[of _ ?nm] exI[of _ s'] conjI)
qed

lemma discover_keeps:
  assumes "run_inv p s"
  shows "run_inv p (discover_class_mappings p preds e s)"
    and "mapping_kept s (discover_class_mappings p preds e s)"
proof -
  show "run_inv p (discover_class_mappings p preds e s)"
  proof (cases p)
    case Balanced
    with assms discover_balanced_keeps(1)[where s=s and preds=preds and e=e]
    show ?thesis by simp
  next
    case Hybrid
    with assms discover_hybrid_keeps(1)[where s=s and preds=preds and e=e]
    show ?thesis by simp
  qed
  show "mapping_kept s (discover_class_mappings p preds e s)"
  proof (cases p)
    case Balanced
    with assms discover_balanced_keeps(2)[where s=s and preds=preds and e=e]
    show ?thesis by (simp add: mapping_kept_def)
  next
    case Hybrid
    with assms discover_hybrid_keeps(2)[where s=s and preds=preds and e=e]
    show ?thesis by (simp add: mapping_kept_def)
  qed
qed

lemma build_keeps:
  assumes "run_inv p s"
  shows "\<exists>nm s'. build_class_mapping p s = Inr (nm, s') \<and> run_inv p s' \<and> mapping_kept s s'"
proof (cases p)
  case Balanced
  with assms build_balanced_keeps[of s] show ?thesis by simp
next
  case Hybrid
  with assms build_hybrid_keeps[of s] show ?thesis by simp
qed

lemma run_keeps:
  "run_inv p s \<Longrightarrow> \<exists>s'. run p calls s = Inr s' \<and> run_inv p s' \<and> mapping_kept s s'"
proof (induction calls arbitrary: s)
  case Nil
  then show ?case by (simp add: mapping_kept_def)
next
  case (Cons x calls)
  show ?case
  proof (cases x)
    case (Discover preds e)
    let ?s = "discover_class_mappings p preds e s"
    from Cons.IH[OF discover_keeps(1)[OF Cons.prems]]
    obtain s' where s': "run p calls ?s = Inr s'" "run_inv p s'" "mapping_kept ?s s'"
      by blast
    have r: "run p (x # calls) s = Inr s'" using s'(1) by (simp add: Discover)
    have k: "mapping_kept s s'"
      by (rule mapping_kept_trans[OF discover_keeps(2)[OF Cons.prems] s'(3)])
    from r s'(2) k show ?thesis by (intro exI[of _ s'] conjI)
  next
    case Rebuild
    from build_keeps[OF Cons.prems] obtain nm s1 where
      b: "build_class_mapping p s = Inr (nm, s1)" and i: "run_inv p s1"
      and m: "mapping_kept s s1"
      by blast
    from Cons.IH[OF i] obtain s' where s': "run p calls s1 = Inr s'" "run_inv p s'"
      "mapping_kept s1 s'"
      by blast
    have r: "run p (x # calls) s = Inr s'" using s'(1) b by (simp add: Rebuild)
    have k: "mapping_kept s s'" by (rule mapping_kept_trans[OF m s'(3)])
    from r s'(2) k show ?thesis by (intro exI[of _ s'] conjI)
  qed
qed

text \<open>
  Claim C3. In a run of the balanced or of the hybrid analyzer, from the state a first part of
  the run has reached, whatever calls of the discovery and of the rebuild follow, the run goes
  on without an exception, and every class in the class mapping is still there at the end and
  maps to the same term. The class mapping is a finite map, so a class has at most one term
  at any time.
\<close>

theorem mapping_table_monotonic:
  assumes "run p calls (init_analyzer terms) = Inr s1"
  shows "\<exists>s2. run p later s1 = Inr s2
           \<and> (\<forall>c t. class_mapping s1 c = Some t \<longrightarrow> class_mapping s2 c = Some t)"
proof -
  from run_keeps[OF run_inv_init, of p calls terms] obtain s' where
    "run p calls (init_analyzer terms) = Inr s'" "run_inv p s'" by blast
  with assms have "run_inv p s1" by simp
  from run_keeps[OF this, of later] obtain s2 where
    "run p later s1 = Inr s2" "mapping_kept s1 s2" by blast
  then show ?thesis unfolding mapping_kept_def by (intro exI[of _ s2] conjI)
qed

text \<open>
  A balanced run: the cell \<open>boundary_predictions\<close> is seen twice with the expected term acorn
  and the mapping is rebuilt, which maps class 42 to acorn; then the same cell is seen three
  times with the expected term fork and the mapping is rebuilt again.
\<close>

definition first_calls :: "call list" where
  "first_calls =
     [Discover boundary_predictions (Some ''acorn''),
      Discover boundary_predictions (Some ''acorn''), Rebuild]"

definition later_calls :: "call list" where
  "later_calls =
     [Discover boundary_predictions (Some ''fork''), Discover boundary_predictions (Some ''fork''),
      Discover boundary_predictions (Some ''fork''), Rebuild]"

lemmas discover_balanced_eval =
  discover_class_mappings_balanced_def discover_step_balanced_def dd_append_def dd_get_def
  mk_prediction_def init_analyzer_def

theorem mapping_table_monotonic_witness:
  "(case run Balanced first_calls (init_analyzer [''acorn'', ''fork'']) of
      Inl e \<Rightarrow> False
    | Inr s1 \<Rightarrow>
        class_mapping s1 ''42'' = Some ''acorn''
        \<and> (case run Balanced later_calls s1 of
             Inl e \<Rightarrow> False
           | Inr s2 \<Rightarrow> class_mapping s2 ''42'' = Some ''acorn''))"
proof -
  let ?init = "init_analyzer [''acorn'', ''fork'']"
  have "run Balanced [] ?init = Inr ?init" by simp
  from mapping_table_monotonic[OF this, of first_calls] obtain s1 where
    r1: "run Balanced first_calls ?init = Inr s1" by blast
  then have m1: "class_mapping s1 ''42'' = Some ''acorn''"
    by (auto simp add: first_calls_def boundary_predictions_def discover_balanced_eval
        balanced_eval)
  from mapping_table_monotonic[OF r1, of later_calls] obtain s2 where
    r2: "run Balanced later_calls s1 = Inr s2"
    and k: "\<forall>c t. class_mapping s1 c = Some t \<longrightarrow> class_mapping s2 c = Some t"
    by blast
  from k m1 have "class_mapping s2 ''42'' = Some ''acorn''" by blast
  with r1 r2 m1 show ?thesis by simp
qed

section \<open>Properties of the matcher on class names\<close>

lemma best_step_eq:
  "best_step ratio th cn v (bm, bs) =
     (if term_score ratio cn v > bs \<and> term_score ratio cn v \<ge> th
      then (Some v, term_score ratio cn v) else (bm, bs))"
  by (simp add: best_step_def Let_def)

lemma fold_best_step:
  assumes "fold (best_step ratio th cn) vs (bm, bs) = (bm', bs')"
  shows "bs \<le> bs'
     \<and> (\<forall>v \<in> set vs. th \<le> term_score ratio cn v \<longrightarrow> term_score ratio cn v \<le> bs')
     \<and> ((bm', bs') = (bm, bs)
          \<or> (\<exists>v \<in> set vs. bm' = Some v \<and> bs' = term_score ratio cn v \<and> th \<le> bs' \<and> bs < bs'))"
  using assms
proof (induction vs arbitrary: bm bs)
  case Nil
  then show ?case by simp
next
  case (Cons v vs)
  let ?sc = "term_score ratio cn v"
  show ?case
  proof (cases "?sc > bs \<and> ?sc \<ge> th")
    case True
    then have "best_step ratio th cn v (bm, bs) = (Some v, ?sc)"
      by (simp add: best_step_eq)
    then have "fold (best_step ratio th cn) vs (Some v, ?sc) = (bm', bs')"
      using Cons.prems by simp
    from Cons.IH[OF this] True show ?thesis by auto
  next
    case False
    then have "best_step ratio th cn v (bm, bs) = (bm, bs)"
      by (auto simp add: best_step_eq)
    then have "fold (best_step ratio th cn) vs (bm, bs) = (bm', bs')"
      using Cons.prems by simp
    from Cons.IH[OF this] False show ?thesis by auto
  qed
qed

definition qualifies :: "(string \<Rightarrow> string \<Rightarrow> real) \<Rightarrow> real \<Rightarrow> named_prediction \<Rightarrow> string \<Rightarrow> bool" where
  "qualifies ratio th p v \<longleftrightarrow>
     th \<le> term_score ratio (lower (np_class_name p)) v
     \<and> 0 < term_score ratio (lower (np_class_name p)) v"

lemma match_prediction_cases:
  assumes "[] \<notin> set vocab"
  shows "(\<not> (\<exists>v \<in> set vocab. qualifies ratio th p v) \<and> match_prediction ratio vocab th p = [])
       \<or> (\<exists>v \<in> set vocab. qualifies ratio th p v
            \<and> (\<forall>w \<in> set vocab. th \<le> term_score ratio (lower (np_class_name p)) w \<longrightarrow>
                   term_score ratio (lower (np_class_name p)) w
                     \<le> term_score ratio (lower (np_class_name p)) v)
            \<and> match_prediction ratio vocab th p =
                [\<lparr>m_prediction = p, m_vocab_term = v,
                  match_score = term_score ratio (lower (np_class_name p)) v,
                  match_type =
                    (if term_score ratio (lower (np_class_name p)) v = 1 then ''exact''
                     else if term_score ratio (lower (np_class_name p)) v \<ge> 0.8
                     then ''partial'' else ''similarity'')\<rparr>])"
proof -
  let ?cn = "lower (np_class_name p)"
  obtain bm bs where f: "fold (best_step ratio th ?cn) vocab (None, 0) = (bm, bs)"
    by (cases "fold (best_step ratio th ?cn) vocab (None, 0)")
  from fold_best_step[OF f] have
    ub: "\<forall>v \<in> set vocab. th \<le> term_score ratio ?cn v \<longrightarrow> term_score ratio ?cn v \<le> bs"
    and alt: "(bm, bs) = (None, 0)
       \<or> (\<exists>v \<in> set vocab. bm = Some v \<and> bs = term_score ratio ?cn v \<and> th \<le> bs \<and> 0 < bs)"
    by blast+
  from alt show ?thesis
  proof
    assume e: "(bm, bs) = (None, 0)"
    with ub have "\<not> (\<exists>v \<in> set vocab. qualifies ratio th p v)"
      by (auto simp: qualifies_def)
    moreover have "match_prediction ratio vocab th p = []"
      using f e by (simp add: match_prediction_def)
    ultimately show ?thesis by blast
  next
    assume "\<exists>v \<in> set vocab. bm = Some v \<and> bs = term_score ratio ?cn v \<and> th \<le> bs \<and> 0 < bs"
    then obtain v where v: "v \<in> set vocab" "bm = Some v" "bs = term_score ratio ?cn v"
      "th \<le> bs" "0 < bs" by blast
    from v(1) assms have ne: "v \<noteq> []" by auto
    have q: "qualifies ratio th p v" using v by (simp add: qualifies_def)
    have m: "match_prediction ratio vocab th p =
                [\<lparr>m_prediction = p, m_vocab_term = v,
                  match_score = term_score ratio ?cn v,
                  match_type =
                    (if term_score ratio ?cn v = 1 then ''exact''
                     else if term_score ratio ?cn v \<ge> 0.8
                     then ''partial'' else ''similarity'')\<rparr>]"
      using f v(2,3) ne by (simp add: match_prediction_def)
    from v(1) q ub m show ?thesis unfolding v(3) by blast
  qed
qed

lemma find_vocab_matches_Cons:
  "find_vocab_matches ratio vocab th (p # ps) =
     match_prediction ratio vocab th p @ find_vocab_matches ratio vocab th ps"
  by (simp add: find_vocab_matches_def)

lemma find_vocab_matches_order:
  assumes "[] \<notin> set vocab"
  shows "map m_prediction (find_vocab_matches ratio vocab th preds)
           = filter (\<lambda>p. \<exists>v \<in> set vocab. qualifies ratio th p v) preds"
proof (induction preds)
  case Nil
  show ?case by (simp add: find_vocab_matches_def)
next
  case (Cons p ps)
  from match_prediction_cases[OF assms, of ratio th p] Cons.IH show ?case
    by (auto simp add: find_vocab_matches_Cons)
qed

lemma find_vocab_matches_best:
  assumes "[] \<notin> set vocab" "m \<in> set (find_vocab_matches ratio vocab th preds)"
  shows "m_prediction m \<in> set preds \<and> m_vocab_term m \<in> set vocab
     \<and> match_score m = term_score ratio (lower (np_class_name (m_prediction m))) (m_vocab_term m)
     \<and> th \<le> match_score m \<and> 0 < match_score m
     \<and> (\<forall>w \<in> set vocab. th \<le> term_score ratio (lower (np_class_name (m_prediction m))) w \<longrightarrow>
            term_score ratio (lower (np_class_name (m_prediction m))) w \<le> match_score m)"
proof -
  from assms(2) obtain p where p: "p \<in> set preds" "m \<in> set (match_prediction ratio vocab th p)"
    by (auto simp: find_vocab_matches_def)
  from match_prediction_cases[OF assms(1), of ratio th p] p(2)
  obtain v where v: "v \<in> set vocab" "qualifies ratio th p v"
    "\<forall>w \<in> set vocab. th \<le> term_score ratio (lower (np_class_name p)) w \<longrightarrow>
                   term_score ratio (lower (np_class_name p)) w
                     \<le> term_score ratio (lower (np_class_name p)) v"
    "m_prediction m = p" "m_vocab_term m = v"
    "match_score m = term_score ratio (lower (np_class_name p)) v"
    by auto
  from p(1) v show ?thesis by (simp add: qualifies_def)
qed

definition shares_word :: "string \<Rightarrow> string \<Rightarrow> bool" where
  "shares_word a b \<longleftrightarrow> set (str_split a) \<inter> set (str_split b) \<noteq> {}"

lemma term_score_tiers:
  "term_score ratio cn v =
     (if lower v = cn then 1
      else if sublist (lower v) cn \<or> sublist cn (lower v) then 0.8
      else if shares_word (lower v) cn then 0.6
      else ratio (lower cn) (lower (lower v)))"
proof -
  have "((\<exists>word \<in> set (str_split (lower v)). word \<in> set (str_split cn))
              \<or> (\<exists>word \<in> set (str_split cn). word \<in> set (str_split (lower v))))
        \<longleftrightarrow> shares_word (lower v) cn"
    by (auto simp: shares_word_def)
  then show ?thesis
    by (simp add: term_score_def Let_def similarity_score_def)
qed

text \<open>
  What \<^verbatim>\<open>_find_vocab_matches\<close> of scripts/python\_efficientnet\_classifier.py computes, for
  a vocabulary without an empty term (the loader drops empty lines). The score of a term
  against a class name is 1 when the two are equal in lower case, otherwise 0.8 when one
  contains the other, otherwise 0.6 when they share a word, otherwise the ratio of the sequence
  matcher. Every term is scored on its own. A prediction gets a match exactly when some term
  scores at least the threshold (and above 0); the match carries a term of the vocabulary whose
  score is the largest among the terms that reach the threshold. The function returns the
  matches as the loop over the predictions appended them.
\<close>

lemma find_vocab_matches_as_written:
  assumes "[] \<notin> set vocab_list"
  shows "map m_prediction (find_vocab_matches ratio vocab_list th predictions)
           = filter (\<lambda>p. \<exists>v \<in> set vocab_list.
                        th \<le> term_score ratio (lower (np_class_name p)) v
                        \<and> 0 < term_score ratio (lower (np_class_name p)) v) predictions
       \<and> (\<forall>m \<in> set (find_vocab_matches ratio vocab_list th predictions).
            m_vocab_term m \<in> set vocab_list
            \<and> match_score m
                 = term_score ratio (lower (np_class_name (m_prediction m))) (m_vocab_term m)
            \<and> th \<le> match_score m
            \<and> (\<forall>w \<in> set vocab_list.
                  th \<le> term_score ratio (lower (np_class_name (m_prediction m))) w \<longrightarrow>
                  term_score ratio (lower (np_class_name (m_prediction m))) w \<le> match_score m))
       \<and> (\<forall>cn v. term_score ratio cn v =
             (if lower v = cn then 1
              else if sublist (lower v) cn \<or> sublist cn (lower v) then 0.8
              else if shares_word (lower v) cn then 0.6
              else ratio (lower cn) (lower (lower v))))"
proof (intro conjI ballI allI)
  show "map m_prediction (find_vocab_matches ratio vocab_list th predictions)
           = filter (\<lambda>p. \<exists>v \<in> set vocab_list.
                        th \<le> term_score ratio (lower (np_class_name p)) v
                        \<and> 0 < term_score ratio (lower (np_class_name p)) v) predictions"
    using find_vocab_matches_order[OF assms, of ratio th predictions]
    by (simp add: qualifies_def)
next
  fix m assume m: "m \<in> set (find_vocab_matches ratio vocab_list th predictions)"
  note b = find_vocab_matches_best[OF assms m]
  from b show "m_vocab_term m \<in> set vocab_list" by blast
  from b show "match_score m
      = term_score ratio (lower (np_class_name (m_prediction m))) (m_vocab_term m)" by blast
  from b show "th \<le> match_score m" by blast
  show "th \<le> term_score ratio (lower (np_class_name (m_prediction m))) w \<longrightarrow>
        term_score ratio (lower (np_class_name (m_prediction m))) w \<le> match_score m"
    if "w \<in> set vocab_list" for w
    using b that by blast
next
  fix cn v
  show "term_score ratio cn v =
             (if lower v = cn then 1
              else if sublist (lower v) cn \<or> sublist cn (lower v) then 0.8
              else if shares_word (lower v) cn then 0.6
              else ratio (lower cn) (lower (lower v)))"
    by (rule term_score_tiers)
qed

text \<open>
  Two predictions, Acorn squash and then acorn, against the vocabulary of the single term
  acorn: the first contains the term (0.8), the second equals it (1.0). The ratio of the
  sequence matcher is not reached on this input; \<open>no_ratio\<close> stands for it.
\<close>

definition no_ratio :: "string \<Rightarrow> string \<Rightarrow> real" where
  "no_ratio a b = 0"

definition squash_predictions :: "named_prediction list" where
  "squash_predictions =
     [\<lparr>np_class_name = ''Acorn squash'', np_confidence = 0.6, np_rank = 1\<rparr>,
      \<lparr>np_class_name = ''acorn'', np_confidence = 0.3, np_rank = 2\<rparr>]"

lemmas matcher_eval =
  find_vocab_matches_def match_prediction_def best_step_def term_score_def Let_def
  similarity_score_def str_split_def whitespace_def lower_def lower_char_def
  sublist_Cons_right no_ratio_def

lemma squash_scores:
  "map match_score (find_vocab_matches no_ratio [''acorn''] 0.3 squash_predictions) = [0.8, 1]"
  by (simp add: matcher_eval squash_predictions_def)

lemma find_vocab_matches_as_written_example:
  "[] \<notin> set [''acorn'']
   \<and> map m_prediction (find_vocab_matches no_ratio [''acorn''] 0.3 squash_predictions)
       = squash_predictions"
proof -
  have h: "[] \<notin> set [''acorn'']" by simp
  have q: "term_score no_ratio (lower (np_class_name p)) ''acorn'' \<ge> 0.3
           \<and> 0 < term_score no_ratio (lower (np_class_name p)) ''acorn''"
    if "p \<in> set squash_predictions" for p
    using that by (auto simp add: squash_predictions_def matcher_eval)
  have "filter (\<lambda>p. \<exists>v \<in> set [''acorn''].
                        0.3 \<le> term_score no_ratio (lower (np_class_name p)) v
                        \<and> 0 < term_score no_ratio (lower (np_class_name p)) v) squash_predictions
        = squash_predictions"
    using q by (intro filter_True) auto
  with find_vocab_matches_as_written[OF h, of no_ratio "0.3" squash_predictions] h
  show ?thesis by simp
qed

lemma find_vocab_matches_gpu_sorted:
  "sorted_wrt (\<ge>) (map match_score (find_vocab_matches_gpu ratio vocab_list th predictions))"
proof -
  let ?ms = "rev (find_vocab_matches ratio vocab_list th predictions)"
  have "sorted (map match_score (sort_key match_score ?ms))" by simp
  then have "sorted_wrt (\<ge>) (rev (map match_score (sort_key match_score ?ms)))"
    by (simp add: sorted_wrt_rev)
  then show ?thesis by (simp add: find_vocab_matches_gpu_def rev_map)
qed

text \<open>
  Claim C8. The score of a prediction against a vocabulary term is 1.0, 0.8, 0.6 or the
  similarity ratio, the best-scoring term that meets the threshold is kept for each
  prediction, and the resulting match list is sorted by score, descending. The copy of the
  function in scripts/gpu\_optimized\_classifier.py returns such a list
  (\<open>find_vocab_matches_gpu_sorted\<close>). The copy in scripts/python\_efficientnet\_classifier.py
  has lost the sort: on the two predictions Acorn squash and acorn, against the vocabulary of
  the single term acorn, it returns the scores 0.8 and then 1.0, which is not in descending
  order, where the other copy returns 1.0 and then 0.8.
\<close>

theorem find_vocab_matches_unsorted:
  "map match_score (find_vocab_matches no_ratio [''acorn''] 0.3 squash_predictions) = [0.8, 1]
   \<and> \<not> sorted_wrt (\<ge>)
         (map match_score (find_vocab_matches no_ratio [''acorn''] 0.3 squash_predictions))
   \<and> map match_score (find_vocab_matches_gpu no_ratio [''acorn''] 0.3 squash_predictions)
       = [1, 0.8]"
proof -
  have "map match_score (find_vocab_matches_gpu no_ratio [''acorn''] 0.3 squash_predictions)
          = rev (map match_score (sort_key match_score
                  (rev (find_vocab_matches no_ratio [''acorn''] 0.3 squash_predictions))))"
    by (simp add: find_vocab_matches_gpu_def rev_map)
  also have "\<dots> = [1, 0.8]"
    by (simp add: matcher_eval squash_predictions_def)
  finally show ?thesis unfolding squash_scores by simp
qed

section \<open>An image whose vocabulary index is out of range\<close>

text \<open>The hybrid rebuild returns on every state.\<close>

lemma for_each_build_step_hybrid_returns:
  "\<exists>nm vs. for_each (build_step_hybrid cm) dcs acc = Inr (nm, vs)"
proof (induction dcs arbitrary: acc)
  case Nil
  show ?case by (cases acc) simp
next
  case (Cons x xs)
  obtain c ds where x: "x = (c, ds)" by (cases x)
  obtain nm vs where acc: "acc = (nm, vs)" by (cases acc)
  obtain acc' where "build_step_hybrid cm x acc = Inr acc'"
    unfolding x acc build_step_hybrid_eq by blast
  with Cons.IH[of acc'] show ?case by simp
qed

lemma build_class_mapping_hybrid_returns:
  "\<exists>nm vs. build_class_mapping_hybrid s
      = Inr (nm, s\<lparr>validation_stats := vs, class_mapping := class_mapping s ++ nm\<rparr>)"
proof -
  obtain nm vs where
    "for_each (build_step_hybrid (class_mapping s)) (discovered_classes s)
        (Map.empty, validation_stats s) = Inr (nm, vs)"
    using for_each_build_step_hybrid_returns by blast
  then have "build_class_mapping_hybrid s
      = Inr (nm, s\<lparr>validation_stats := vs, class_mapping := class_mapping s ++ nm\<rparr>)"
    by (simp add: build_class_mapping_hybrid_def)
  then show ?thesis by blast
qed

definition same_ledger :: "hybrid_analyzer \<Rightarrow> hybrid_analyzer \<Rightarrow> bool" where
  "same_ledger s s' \<longleftrightarrow>
     class_mapping s' = class_mapping s \<and> discovered_classes s' = discovered_classes s
     \<and> validation_stats s' = validation_stats s \<and> vocab_terms s' = vocab_terms s
     \<and> results s' = results s"

lemma analyze_cell_hybrid_None:
  "(\<exists>msg s'. analyze_cell_hybrid None cells position (s, grid, correct, any_det) = Inl (msg, s')
        \<and> same_ledger s s' \<and> isl (cells position))
   \<or> (\<exists>s' grid' any_det'. analyze_cell_hybrid None cells position (s, grid, correct, any_det)
           = Inr (s', grid', correct, any_det')
        \<and> same_ledger s s' \<and> \<not> isl (cells position))"
proof (cases "cells position")
  case (Inl msg)
  then show ?thesis
    by (simp add: analyze_cell_hybrid_def same_ledger_def)
next
  case (Inr predictions)
  then show ?thesis
    by (simp add: analyze_cell_hybrid_def same_ledger_def Let_def
        discover_class_mappings_hybrid_def)
qed

lemma for_each_analyze_cell_hybrid_None:
  "(\<exists>msg s'. for_each (analyze_cell_hybrid None cells) positions (s, grid, correct, any_det)
         = Inl (msg, s')
        \<and> same_ledger s s' \<and> (\<exists>position \<in> set positions. isl (cells position)))
   \<or> (\<exists>s' grid' any_det'. for_each (analyze_cell_hybrid None cells) positions
          (s, grid, correct, any_det) = Inr (s', grid', correct, any_det')
        \<and> same_ledger s s' \<and> (\<forall>position \<in> set positions. \<not> isl (cells position)))"
proof (induction positions arbitrary: s grid any_det)
  case Nil
  show ?case by (simp add: same_ledger_def)
next
  case (Cons p ps)
  from analyze_cell_hybrid_None[of cells p s grid correct any_det]
  show ?case
  proof
    assume "\<exists>msg s'. analyze_cell_hybrid None cells p (s, grid, correct, any_det) = Inl (msg, s')
        \<and> same_ledger s s' \<and> isl (cells p)"
    then show ?thesis by auto
  next
    assume "\<exists>s' grid' any_det'. analyze_cell_hybrid None cells p (s, grid, correct, any_det)
           = Inr (s', grid', correct, any_det')
        \<and> same_ledger s s' \<and> \<not> isl (cells p)"
    then obtain s1 g1 a1 where
      st: "analyze_cell_hybrid None cells p (s, grid, correct, any_det) = Inr (s1, g1, correct, a1)"
      and l: "same_ledger s s1" and ok: "\<not> isl (cells p)"
      by blast
    from Cons.IH[of s1 g1 a1] show ?thesis
    proof
      assume "\<exists>msg s'. for_each (analyze_cell_hybrid None cells) ps (s1, g1, correct, a1)
         = Inl (msg, s')
        \<and> same_ledger s1 s' \<and> (\<exists>position \<in> set ps. isl (cells position))"
      then obtain msg s' where
        f: "for_each (analyze_cell_hybrid None cells) ps (s1, g1, correct, a1) = Inl (msg, s')"
        and l': "same_ledger s1 s'" and b: "\<exists>position \<in> set ps. isl (cells position)"
        by blast
      have "for_each (analyze_cell_hybrid None cells) (p # ps) (s, grid, correct, any_det)
              = Inl (msg, s')"
        using st f by simp
      moreover have "same_ledger s s'" using l l' by (simp add: same_ledger_def)
      ultimately show ?thesis using b by auto
    next
      assume "\<exists>s' grid' any_det'. for_each (analyze_cell_hybrid None cells) ps
          (s1, g1, correct, a1) = Inr (s', grid', correct, any_det')
        \<and> same_ledger s1 s' \<and> (\<forall>position \<in> set ps. \<not> isl (cells position))"
      then obtain s' g' a' where
        f: "for_each (analyze_cell_hybrid None cells) ps (s1, g1, correct, a1)
              = Inr (s', g', correct, a')"
        and l': "same_ledger s1 s'" and b: "\<forall>position \<in> set ps. \<not> isl (cells position)"
        by blast
      have "for_each (analyze_cell_hybrid None cells) (p # ps) (s, grid, correct, any_det)
              = Inr (s', g', correct, a')"
        using st f by simp
      moreover have "same_ledger s s'" using l l' by (simp add: same_ledger_def)
      ultimately show ?thesis using b ok by auto
    qed
  qed
qed

lemma analyze_image_hybrid_None:
  "same_ledger s (snd (analyze_image_hybrid world url sid None s))
   \<and> (case fst (analyze_image_hybrid world url sid None s) of
        Success a \<Rightarrow> ia_screenshot_id a = sid \<and> ia_expected_vocab a = None
                       \<and> \<not> has_correct_detection a
      | Failure sid' msg \<Rightarrow>
          sid' = sid \<and> (case world url of Inl msg' \<Rightarrow> True
                         | Inr cells \<Rightarrow> \<exists>position \<in> set grid_positions. isl (cells position)))"
proof (cases "world url")
  case (Inl msg)
  then show ?thesis by (simp add: analyze_image_hybrid_def same_ledger_def)
next
  case (Inr cells)
  from for_each_analyze_cell_hybrid_None[of cells grid_positions s "[]" False False]
  show ?thesis
    by (auto simp add: analyze_image_hybrid_def Inr)
qed

lemma expected_vocab_of_beyond:
  "int (length terms) \<le> i - 4 \<Longrightarrow> expected_vocab_of terms i = Inr None"
  by (simp add: expected_vocab_of_def)

text \<open>
  Claim C9, as the code has it. When the vocabulary index \<open>i - 4\<close> of an image is at or beyond
  the end of the vocabulary list, the expected term is \<^verbatim>\<open>None\<close>, and the image is handled as
  any other: it is fetched and analysed, its result is appended to the results and the rebuild
  runs, so the run goes on. No observation is recorded for the image. When the fetch and the
  classifier deliver, the result is a successful one, with no expected term and with the
  correct-detection flag false; a failed result comes from the fetch or from the classifier
  only. Nothing records that the index was out of range.
\<close>

theorem out_of_range_index_defaults:
  assumes "int (length (vocab_terms s)) \<le> i - 4"
  shows "expected_vocab_of (vocab_terms s) i = Inr None
     \<and> (\<exists>s' r. image_step_hybrid world i s = Inr s'
           \<and> results s' = results s @ [r]
           \<and> r = fst (analyze_image_hybrid world (image_url_of (format_03d i)) (format_03d i)
                        None s)
           \<and> discovered_classes s' = discovered_classes s
           \<and> (case r of
                 Success a \<Rightarrow> ia_screenshot_id a = format_03d i \<and> ia_expected_vocab a = None
                                \<and> \<not> has_correct_detection a
               | Failure sid msg \<Rightarrow>
                   (case world (image_url_of (format_03d i)) of
                      Inl msg' \<Rightarrow> True
                    | Inr cells \<Rightarrow> \<exists>position \<in> set grid_positions. isl (cells position))))"
proof -
  let ?sid = "format_03d i"
  let ?url = "image_url_of ?sid"
  let ?an = "analyze_image_hybrid world ?url ?sid None s"
  let ?r = "fst ?an"
  let ?s1 = "snd ?an"
  let ?s2 = "?s1\<lparr>results := results ?s1 @ [?r]\<rparr>"
  have e: "expected_vocab_of (vocab_terms s) i = Inr None"
    by (rule expected_vocab_of_beyond[OF assms])
  note an = analyze_image_hybrid_None[of s world ?url ?sid]
  from an have l: "same_ledger s ?s1" by blast
  obtain nm vs where
    b: "build_class_mapping_hybrid ?s2
          = Inr (nm, ?s2\<lparr>validation_stats := vs, class_mapping := class_mapping ?s2 ++ nm\<rparr>)"
    using build_class_mapping_hybrid_returns by blast
  let ?s3 = "?s2\<lparr>validation_stats := vs, class_mapping := class_mapping ?s2 ++ nm\<rparr>"
  have step: "image_step_hybrid world i s = Inr ?s3"
    by (simp add: image_step_hybrid_def e Let_def split_beta b)
  have res: "results ?s3 = results s @ [?r]" using l by (simp add: same_ledger_def)
  have dc: "discovered_classes ?s3 = discovered_classes s" using l by (simp add: same_ledger_def)
  have r: "(case ?r of
                 Success a \<Rightarrow> ia_screenshot_id a = format_03d i \<and> ia_expected_vocab a = None
                                \<and> \<not> has_correct_detection a
               | Failure sid msg \<Rightarrow>
                   (case world ?url of
                      Inl msg' \<Rightarrow> True
                    | Inr cells \<Rightarrow> \<exists>position \<in> set grid_positions. isl (cells position)))"
    using an by (auto split: image_result.splits)
  from e step res dc r show ?thesis by blast
qed

text \<open>
  A world in which every image shows, top left, the cell \<open>obvious_cell\<close> (class 42 at 71
  percent) and elsewhere nothing of note, and a vocabulary of the single term acorn: image 004
  has the vocabulary index 0 and image 005 the index 1, which is out of range.
\<close>

definition acorn_cells :: "string \<Rightarrow> cell_outcome" where
  "acorn_cells position =
     (if position = ''top_left'' then Inr obvious_cell
      else Inr [mk_prediction 1 ''7'' 20, mk_prediction 2 ''8'' 5])"

definition acorn_world :: "string \<Rightarrow> image_outcome" where
  "acorn_world url = Inr acorn_cells"

text \<open>
  Of a result: the screenshot id, \<^verbatim>\<open>success\<close>, the expected term, and the flags
  \<^verbatim>\<open>has_correct_detection\<close> and \<^verbatim>\<open>has_any_detection\<close>.
\<close>

fun summary :: "image_result \<Rightarrow> string \<times> bool \<times> string option \<times> bool \<times> bool" where
  "summary (Success a) =
     (ia_screenshot_id a, True, ia_expected_vocab a, has_correct_detection a, has_any_detection a)"
| "summary (Failure sid msg) = (sid, False, None, False, False)"

lemma image_005_alone:
  "summary (fst (analyze_image_hybrid acorn_world (image_url_of (format_03d 5)) (format_03d 5)
                   None (init_hybrid [''acorn''])))
     = (''005'', True, None, False, False)"
  by code_simp

theorem out_of_range_index_defaults_witness:
  "int (length (vocab_terms (init_hybrid [''acorn'']))) \<le> 5 - 4
   \<and> (\<exists>s'. image_step_hybrid acorn_world 5 (init_hybrid [''acorn'']) = Inr s'
          \<and> map summary (results s') = [(''005'', True, None, False, False)])"
proof -
  have h: "int (length (vocab_terms (init_hybrid [''acorn'']))) \<le> 5 - 4"
    by (simp add: init_hybrid_def)
  from out_of_range_index_defaults[OF h, of acorn_world] obtain s' r where
    s': "image_step_hybrid acorn_world 5 (init_hybrid [''acorn'']) = Inr s'"
    and r: "results s' = results (init_hybrid [''acorn'']) @ [r]"
      "r = fst (analyze_image_hybrid acorn_world (image_url_of (format_03d 5)) (format_03d 5)
                  None (init_hybrid [''acorn'']))"
    by blast
  have "results (init_hybrid [''acorn'']) = []" by (simp add: init_hybrid_def)
  with r have "map summary (results s') = [(''005'', True, None, False, False)]"
    by (simp add: image_005_alone)
  with h s' show ?thesis by (intro conjI exI[of _ s'])
qed

text \<open>
  The claim as stated fails: in the run over the images 004 and 005, image 005 has no
  vocabulary term, and its result is a successful analysis with the expected term \<^verbatim>\<open>None\<close>
  (and a detection, of the class that image 004 has mapped); it is not skipped, and no reason
  is recorded.
\<close>

theorem out_of_range_image_counterexample:
  "expected_vocab_of [''acorn''] 5 = Inr None
   \<and> map_sum id (map summary)
         (fst (run_hybrid_analysis acorn_world 4 5 (init_hybrid [''acorn''])))
       = Inr [(''004'', True, Some ''acorn'', True, True), (''005'', True, None, False, True)]"
  by code_simp

section \<open>Lower case\<close>

subsection \<open>The terms of the class mapping\<close>

text \<open>
  A term is in lower case when \<^verbatim>\<open>lower\<close> leaves it as it is. Both analyzers write a term
  into the class mapping only through \<^verbatim>\<open>lower\<close>.
\<close>

definition lowercase_mapping :: "'a analyzer_scheme \<Rightarrow> bool" where
  "lowercase_mapping s \<longleftrightarrow> (\<forall>c t. class_mapping s c = Some t \<longrightarrow> lower t = t)"

lemma lower_char_idem: "lower_char (lower_char c) = lower_char c"
  by (simp add: lower_char_def)

lemma lower_idem: "lower (lower s) = lower s"
  by (simp add: lower_def lower_char_idem)

lemma lower_Nil_iff: "lower s = [] \<longleftrightarrow> s = []"
  by (simp add: lower_def)

lemma lower_eq_Nil_iff: "lower a = lower b \<Longrightarrow> (a = [] \<longleftrightarrow> b = [])"
  by (metis lower_Nil_iff)

lemma discover_step_hybrid_lowercase:
  "lowercase_mapping s \<Longrightarrow> lowercase_mapping (discover_step_hybrid e ip s)"
  by (cases ip) (simp add: discover_step_hybrid_def lowercase_mapping_def lower_idem)

lemma discover_hybrid_lowercase:
  "lowercase_mapping s \<Longrightarrow> lowercase_mapping (discover_class_mappings_hybrid preds e s)"
proof -
  have "lowercase_mapping s \<Longrightarrow> lowercase_mapping (fold (discover_step_hybrid x) ips s)"
    for x ips
    by (induction ips arbitrary: s) (simp_all add: discover_step_hybrid_lowercase)
  then show "lowercase_mapping s \<Longrightarrow> ?thesis"
    by (simp add: discover_class_mappings_hybrid_def)
qed

lemma discover_lowercase:
  "lowercase_mapping s \<Longrightarrow> lowercase_mapping (discover_class_mappings p preds e s)"
proof (cases p)
  case Balanced
  assume "lowercase_mapping s"
  then show ?thesis
    by (simp add: Balanced lowercase_mapping_def discover_class_mappings_balanced_def
        fold_discover_step_balanced_fields)
next
  case Hybrid
  assume "lowercase_mapping s"
  then show ?thesis by (simp add: Hybrid discover_hybrid_lowercase)
qed

lemma map_add_lowercase:
  assumes "lowercase_mapping s" "\<And>c t. nm c = Some t \<Longrightarrow> lower t = t"
    "class_mapping s' = class_mapping s ++ nm"
  shows "lowercase_mapping s'"
  unfolding lowercase_mapping_def assms(3)
proof (intro allI impI)
  fix c t assume a: "(class_mapping s ++ nm) c = Some t"
  show "lower t = t"
  proof (cases "nm c")
    case None
    with a have "class_mapping s c = Some t" by (simp add: map_add_def)
    with assms(1) show ?thesis by (simp add: lowercase_mapping_def)
  next
    case (Some t')
    with a have "t' = t" by (simp add: map_add_def)
    with Some assms(2) show ?thesis by simp
  qed
qed

lemma build_lowercase:
  assumes "run_inv p s" "lowercase_mapping s" "build_class_mapping p s = Inr (nm, s')"
  shows "lowercase_mapping s'"
proof -
  from assms(1) have d: "distinct (map fst (discovered_classes s))" by (simp add: run_inv_def)
  show ?thesis
  proof (cases p)
    case Balanced
    from build_class_mapping_balanced_obtain[OF d] obtain s1 where
      b: "build_class_mapping_balanced s
            = Inr (new_mappings_balanced (discovered_classes s), s1)"
      and cm: "class_mapping s1 = class_mapping s ++ new_mappings_balanced (discovered_classes s)"
      by blast
    from b assms(3) Balanced have s1: "s1 = s'" by simp
    have "lower t = t" if "new_mappings_balanced (discovered_classes s) c = Some t" for c t
      using that by (auto simp: new_mappings_balanced_def lower_idem split: option.splits if_splits)
    from map_add_lowercase[OF assms(2) this cm] s1 show ?thesis by simp
  next
    case Hybrid
    from build_class_mapping_hybrid_obtain[OF d] obtain s1 where
      b: "build_class_mapping_hybrid s
            = Inr (new_mappings_hybrid (class_mapping s) (discovered_classes s), s1)"
      and cm: "class_mapping s1
            = class_mapping s ++ new_mappings_hybrid (class_mapping s) (discovered_classes s)"
      by blast
    from b assms(3) Hybrid have s1: "s1 = s'" by simp
    have "lower t = t"
      if "new_mappings_hybrid (class_mapping s) (discovered_classes s) c = Some t" for c t
      using that by (auto simp: new_mappings_hybrid_def lower_idem split: option.splits if_splits)
    from map_add_lowercase[OF assms(2) this cm] s1 show ?thesis by simp
  qed
qed

lemma run_lowercase:
  "run_inv p s \<Longrightarrow> lowercase_mapping s \<Longrightarrow> run p calls s = Inr s' \<Longrightarrow> lowercase_mapping s'"
proof (induction calls arbitrary: s)
  case Nil
  then show ?case by simp
next
  case (Cons x calls)
  show ?case
  proof (cases x)
    case (Discover preds e)
    let ?s = "discover_class_mappings p preds e s"
    have r: "run p calls ?s = Inr s'" using Cons.prems(3) by (simp add: Discover)
    from Cons.IH[OF discover_keeps(1)[OF Cons.prems(1)] discover_lowercase[OF Cons.prems(2)] r]
    show ?thesis .
  next
    case Rebuild
    from build_keeps[OF Cons.prems(1)] obtain nm s1 where
      b: "build_class_mapping p s = Inr (nm, s1)" and i: "run_inv p s1"
      by blast
    have r: "run p calls s1 = Inr s'" using Cons.prems(3) b by (simp add: Rebuild)
    from Cons.IH[OF i build_lowercase[OF Cons.prems(1,2) b] r] show ?thesis .
  qed
qed

lemma run_from_init_lowercase:
  assumes "run p calls (init_analyzer terms) = Inr s" "class_mapping s c = Some t"
  shows "lower t = t"
proof -
  have "lowercase_mapping (init_analyzer terms)"
    by (simp add: lowercase_mapping_def init_analyzer_def)
  from run_lowercase[OF run_inv_init this assms(1)] assms(2) show ?thesis
    by (simp add: lowercase_mapping_def)
qed

subsection \<open>Two analyzers that differ in the spelling of the expected terms\<close>

text \<open>
  Two states are related by a relation \<open>E\<close> on terms when they have the same class mapping,
  the same classes with observations, in the same order, whose observations agree in confidence
  and rank and have expected terms related by \<open>E\<close>, and statistics with the same quality
  scores and mapping types. Two results are the same but for the expected terms when
  \<open>without_expected\<close> makes them equal.
\<close>

definition obs_rel :: "(string \<Rightarrow> string \<Rightarrow> bool) \<Rightarrow> discovery_info \<Rightarrow> discovery_info \<Rightarrow> bool" where
  "obs_rel E d d' \<longleftrightarrow>
     E (expected_vocab d) (expected_vocab d') \<and> disc_confidence d = disc_confidence d'
     \<and> disc_rank d = disc_rank d'"

definition entry_rel ::
  "(string \<Rightarrow> string \<Rightarrow> bool) \<Rightarrow> string \<times> discovery_info list \<Rightarrow> string \<times> discovery_info list \<Rightarrow> bool" where
  "entry_rel E x y \<longleftrightarrow> fst x = fst y \<and> list_all2 (obs_rel E) (snd x) (snd y)"

definition stats_rel :: "stats \<Rightarrow> stats \<Rightarrow> bool" where
  "stats_rel st st' \<longleftrightarrow> quality_score st = quality_score st' \<and> mapping_type st = mapping_type st'"

definition state_rel ::
  "(string \<Rightarrow> string \<Rightarrow> bool) \<Rightarrow> 'a analyzer_scheme \<Rightarrow> 'b analyzer_scheme \<Rightarrow> bool" where
  "state_rel E s s' \<longleftrightarrow>
     class_mapping s = class_mapping s'
     \<and> list_all2 (entry_rel E) (discovered_classes s) (discovered_classes s')
     \<and> (\<forall>c. rel_option stats_rel (validation_stats s c) (validation_stats s' c))"

lemma ledger_rel_dd_get:
  "list_all2 (entry_rel E) d d' \<Longrightarrow> list_all2 (obs_rel E) (dd_get d k) (dd_get d' k)"
proof (induction rule: list_all2_induct)
  case Nil
  show ?case by (simp add: dd_get_def)
next
  case (Cons x xs y ys)
  then show ?case
    by (cases x; cases y) (auto simp: dd_get_def entry_rel_def)
qed

lemma ledger_rel_update:
  "list_all2 (entry_rel E) d d' \<Longrightarrow> list_all2 (obs_rel E) w w' \<Longrightarrow>
   list_all2 (entry_rel E) (AList.update k w d) (AList.update k w' d')"
proof (induction rule: list_all2_induct)
  case Nil
  then show ?case by (simp add: entry_rel_def)
next
  case (Cons x xs y ys)
  then show ?case
    by (cases x; cases y) (auto simp: entry_rel_def)
qed

lemma ledger_rel_dd_append:
  assumes "list_all2 (entry_rel E) d d'" "obs_rel E v v'"
  shows "list_all2 (entry_rel E) (dd_append k v d) (dd_append k v' d')"
proof -
  have "list_all2 (obs_rel E) (dd_get d k @ [v]) (dd_get d' k @ [v'])"
    using ledger_rel_dd_get[OF assms(1), of k] assms(2) by (simp add: list_all2_appendI)
  from ledger_rel_update[OF assms(1) this] show ?thesis by (simp add: dd_append_def)
qed

lemma state_rel_discover_step_hybrid:
  assumes "state_rel E s s'" "E e e'" "lower e = lower e'"
  shows "state_rel E (discover_step_hybrid e ip s) (discover_step_hybrid e' ip s')"
proof -
  obtain i p where ip: "ip = (i, p)" by (cases ip)
  from assms(1) have cm: "class_mapping s = class_mapping s'"
    and dc: "list_all2 (entry_rel E) (discovered_classes s) (discovered_classes s')"
    and vs: "\<And>c. rel_option stats_rel (validation_stats s c) (validation_stats s' c)"
    by (simp_all add: state_rel_def)
  have app: "list_all2 (entry_rel E)
      (dd_append (class_idx p)
         \<lparr>expected_vocab = e, disc_confidence = x, disc_rank = r, confidence_gap = g,
          disc_mapping_type = t\<rparr> (discovered_classes s))
      (dd_append (class_idx p)
         \<lparr>expected_vocab = e', disc_confidence = x, disc_rank = r, confidence_gap = g,
          disc_mapping_type = t\<rparr> (discovered_classes s'))" for x r g t
    by (rule ledger_rel_dd_append[OF dc]) (simp add: obs_rel_def assms(2))
  show ?thesis
    unfolding ip discover_step_hybrid_def prod.case
    using cm vs dc app assms(3)
    by (simp add: state_rel_def stats_rel_def)
qed

lemma state_rel_fold_discover_step_hybrid:
  assumes "E e e'" "lower e = lower e'"
  shows "state_rel E s s' \<Longrightarrow>
    state_rel E (fold (discover_step_hybrid e) ips s) (fold (discover_step_hybrid e') ips s')"
proof (induction ips arbitrary: s s')
  case Nil
  then show ?case by simp
next
  case (Cons ip ips)
  have "state_rel E (discover_step_hybrid e ip s) (discover_step_hybrid e' ip s')"
    using Cons.prems assms by (rule state_rel_discover_step_hybrid)
  from Cons.IH[OF this] show ?case by simp
qed

lemma state_rel_discover_hybrid:
  assumes "state_rel E s s'" "rel_option E x x'" "\<And>a b. E a b \<Longrightarrow> lower a = lower b"
  shows "state_rel E (discover_class_mappings_hybrid preds x s)
           (discover_class_mappings_hybrid preds x' s')"
proof (cases x)
  case None
  with assms(2) have "x' = None" by (cases x') simp_all
  with None assms(1) show ?thesis by (simp add: discover_class_mappings_hybrid_def)
next
  case (Some e)
  with assms(2) obtain e' where x': "x' = Some e'" and E: "E e e'" by (cases x') simp_all
  from assms(3)[OF E] have l: "lower e = lower e'" .
  then have t: "(e = []) = (e' = [])" by (rule lower_eq_Nil_iff)
  have "state_rel E (fold (discover_step_hybrid e) (enumerate 0 (take 3 preds)) s)
          (fold (discover_step_hybrid e') (enumerate 0 (take 3 preds)) s')"
    using E l assms(1) by (rule state_rel_fold_discover_step_hybrid)
  then show ?thesis
    using assms(1) t
    by (simp add: discover_class_mappings_hybrid_def Some x')
qed

lemma match_of_prediction_rel:
  assumes "state_rel E s s'"
  shows "match_of_prediction s p = match_of_prediction s' p"
proof -
  from assms have cm: "class_mapping s = class_mapping s'"
    and vs: "rel_option stats_rel (validation_stats s (class_idx p))
               (validation_stats s' (class_idx p))"
    by (simp_all add: state_rel_def)
  from vs show ?thesis
    by (cases "validation_stats s (class_idx p)"; cases "validation_stats s' (class_idx p)")
       (simp_all add: match_of_prediction_def cm stats_rel_def split: option.splits)
qed

lemma match_vocabulary_terms_hybrid_rel:
  assumes "state_rel E s s'"
  shows "match_vocabulary_terms_hybrid preds s = match_vocabulary_terms_hybrid preds s'"
proof -
  have "match_of_prediction s = match_of_prediction s'"
    using match_of_prediction_rel[OF assms] by (rule ext)
  then show ?thesis by (simp add: match_vocabulary_terms_hybrid_def)
qed

definition blank_cell :: "cell_result \<Rightarrow> cell_result" where
  "blank_cell cr = cr\<lparr>cr_expected_vocab := None\<rparr>"

definition blank_grid :: "(string \<times> cell_result) list \<Rightarrow> (string \<times> cell_result) list" where
  "blank_grid g = map (\<lambda>x. (fst x, blank_cell (snd x))) g"

fun without_expected :: "image_result \<Rightarrow> image_result" where
  "without_expected (Success a) =
     Success (a\<lparr>ia_expected_vocab := None, grid_results := blank_grid (grid_results a)\<rparr>)"
| "without_expected (Failure sid msg) = Failure sid msg"

definition hybrid_rel :: "(string \<Rightarrow> string \<Rightarrow> bool) \<Rightarrow> hybrid_analyzer \<Rightarrow> hybrid_analyzer \<Rightarrow> bool" where
  "hybrid_rel E s s' \<longleftrightarrow>
     state_rel E s s' \<and> list_all2 E (vocab_terms s) (vocab_terms s')
     \<and> detection_frequency s = detection_frequency s'
     \<and> total_cells_analyzed s = total_cells_analyzed s'
     \<and> map without_expected (results s) = map without_expected (results s')"

definition exc_rel ::
  "(string \<Rightarrow> string \<Rightarrow> bool) \<Rightarrow> 'm \<times> hybrid_analyzer \<Rightarrow> 'm \<times> hybrid_analyzer \<Rightarrow> bool" where
  "exc_rel E a b \<longleftrightarrow> fst a = fst b \<and> hybrid_rel E (snd a) (snd b)"

definition acc_rel ::
  "(string \<Rightarrow> string \<Rightarrow> bool)
     \<Rightarrow> hybrid_analyzer \<times> (string \<times> cell_result) list \<times> bool \<times> bool
     \<Rightarrow> hybrid_analyzer \<times> (string \<times> cell_result) list \<times> bool \<times> bool \<Rightarrow> bool" where
  "acc_rel E a b \<longleftrightarrow>
     (case a of (s, g, c, d) \<Rightarrow> case b of (s', g', c', d') \<Rightarrow>
        hybrid_rel E s s' \<and> blank_grid g = blank_grid g' \<and> c = c' \<and> d = d')"

lemma blank_grid_update:
  "blank_grid (AList.update k v g) = AList.update k (blank_cell v) (blank_grid g)"
  by (induction g) (auto simp: blank_grid_def)

lemma discover_step_hybrid_extras:
  "detection_frequency (discover_step_hybrid e ip s) = detection_frequency s"
  "total_cells_analyzed (discover_step_hybrid e ip s) = total_cells_analyzed s"
  "results (discover_step_hybrid e ip s) = results s"
  "vocab_terms (discover_step_hybrid e ip s) = vocab_terms s"
  by (cases ip; simp add: discover_step_hybrid_def)+

lemma discover_hybrid_extras:
  "detection_frequency (discover_class_mappings_hybrid preds x s) = detection_frequency s"
  "total_cells_analyzed (discover_class_mappings_hybrid preds x s) = total_cells_analyzed s"
  "results (discover_class_mappings_hybrid preds x s) = results s"
  "vocab_terms (discover_class_mappings_hybrid preds x s) = vocab_terms s"
proof -
  have "detection_frequency (fold (discover_step_hybrid e) ips s) = detection_frequency s
      \<and> total_cells_analyzed (fold (discover_step_hybrid e) ips s) = total_cells_analyzed s
      \<and> results (fold (discover_step_hybrid e) ips s) = results s
      \<and> vocab_terms (fold (discover_step_hybrid e) ips s) = vocab_terms s" for e ips
    by (induction ips arbitrary: s) (simp_all add: discover_step_hybrid_extras)
  then show "detection_frequency (discover_class_mappings_hybrid preds x s) = detection_frequency s"
    "total_cells_analyzed (discover_class_mappings_hybrid preds x s) = total_cells_analyzed s"
    "results (discover_class_mappings_hybrid preds x s) = results s"
    "vocab_terms (discover_class_mappings_hybrid preds x s) = vocab_terms s"
    by (simp_all add: discover_class_mappings_hybrid_def)
qed

lemma rel_option_truthy:
  assumes "rel_option E x x'" "\<And>a b. E a b \<Longrightarrow> lower a = lower b"
  shows "truthy x = truthy x'" and "truthy x \<Longrightarrow> lower (the x) = lower (the x')"
proof -
  show "truthy x = truthy x'"
    using assms by (cases x; cases x') (auto dest: lower_eq_Nil_iff)
  show "truthy x \<Longrightarrow> lower (the x) = lower (the x')"
    using assms by (cases x; cases x') auto
qed

lemma state_rel_extras:
  "state_rel E (s\<lparr>total_cells_analyzed := a\<rparr>) t = state_rel E s t"
  "state_rel E s (t\<lparr>total_cells_analyzed := a\<rparr>) = state_rel E s t"
  "state_rel E (s\<lparr>detection_frequency := f\<rparr>) t = state_rel E s t"
  "state_rel E s (t\<lparr>detection_frequency := f\<rparr>) = state_rel E s t"
  "state_rel E (s\<lparr>results := r\<rparr>) t = state_rel E s t"
  "state_rel E s (t\<lparr>results := r\<rparr>) = state_rel E s t"
  by (simp_all add: state_rel_def)

lemma analyze_cell_hybrid_rel:
  assumes "acc_rel E a b" "rel_option E x x'" "\<And>u v. E u v \<Longrightarrow> lower u = lower v"
  shows "rel_sum (exc_rel E) (acc_rel E)
           (analyze_cell_hybrid x cells position a) (analyze_cell_hybrid x' cells position b)"
proof -
  obtain s g c d where a: "a = (s, g, c, d)" by (cases a)
  obtain s' g' c' d' where b: "b = (s', g', c', d')" by (cases b)
  from assms(1) have h: "hybrid_rel E s s'" and gg: "blank_grid g = blank_grid g'"
    and cc: "c' = c" and dd: "d' = d"
    by (simp_all add: acc_rel_def a b)
  let ?s1 = "s\<lparr>total_cells_analyzed := total_cells_analyzed s + 1\<rparr>"
  let ?s1' = "s'\<lparr>total_cells_analyzed := total_cells_analyzed s' + 1\<rparr>"
  have h1: "hybrid_rel E ?s1 ?s1'" using h by (simp add: hybrid_rel_def state_rel_extras)
  show ?thesis
  proof (cases "cells position")
    case (Inl msg)
    then show ?thesis
      using h1 by (simp add: analyze_cell_hybrid_def a b exc_rel_def)
  next
    case (Inr preds)
    let ?s2 = "discover_class_mappings_hybrid preds x ?s1"
    let ?s2' = "discover_class_mappings_hybrid preds x' ?s1'"
    from h1 have "state_rel E ?s1 ?s1'" unfolding hybrid_rel_def by (rule conjunct1)
    then have sr: "state_rel E ?s2 ?s2'"
      using assms(2,3) by (rule state_rel_discover_hybrid)
    have m: "match_vocabulary_terms_hybrid preds ?s2 = match_vocabulary_terms_hybrid preds ?s2'"
      by (rule match_vocabulary_terms_hybrid_rel[OF sr])
    let ?m = "match_vocabulary_terms_hybrid preds ?s2'"
    let ?s3 = "?s2\<lparr>detection_frequency :=
                  fold counter_incr (map vm_vocab_term ?m) (detection_frequency ?s2)\<rparr>"
    let ?s3' = "?s2'\<lparr>detection_frequency :=
                  fold counter_incr (map vm_vocab_term ?m) (detection_frequency ?s2')\<rparr>"
    have h3: "hybrid_rel E ?s3 ?s3'"
      using h1 sr by (simp add: hybrid_rel_def state_rel_extras discover_hybrid_extras)
    have t: "truthy x = truthy x'" "truthy x \<Longrightarrow> lower (the x) = lower (the x')"
      using rel_option_truthy[OF assms(2,3)] by simp_all
    have corr: "(\<exists>m \<in> set ?m. truthy x \<and> lower (vm_vocab_term m) = lower (the x))
              = (\<exists>m \<in> set ?m. truthy x' \<and> lower (vm_vocab_term m) = lower (the x'))"
      using t by auto
    have grid: "blank_grid (AList.update position
                  \<lparr>cr_predictions = take 5 preds, cr_vocab_matches = ?m,
                   top_vocab_match = (case ?m of [] \<Rightarrow> None | m # _ \<Rightarrow> Some m),
                   cr_expected_vocab = x\<rparr> g)
              = blank_grid (AList.update position
                  \<lparr>cr_predictions = take 5 preds, cr_vocab_matches = ?m,
                   top_vocab_match = (case ?m of [] \<Rightarrow> None | m # _ \<Rightarrow> Some m),
                   cr_expected_vocab = x'\<rparr> g')"
      by (simp add: blank_grid_update gg blank_cell_def)
    show ?thesis
      unfolding analyze_cell_hybrid_def a b prod.case Inr sum.case Let_def m cc dd
      using h3 grid corr
      by (simp add: acc_rel_def)
  qed
qed

lemma for_each_rel:
  assumes "\<And>x a b. R a b \<Longrightarrow> rel_sum Q R (f x a) (g x b)"
  shows "R a b \<Longrightarrow> rel_sum Q R (for_each f xs a) (for_each g xs b)"
proof (induction xs arbitrary: a b)
  case Nil
  then show ?case by simp
next
  case (Cons x xs)
  from assms[OF Cons.prems, of x] Cons.IH show ?case
    by (cases "f x a"; cases "g x b") simp_all
qed

lemma analyze_image_hybrid_rel:
  assumes "hybrid_rel E s s'" "rel_option E x x'" "\<And>u v. E u v \<Longrightarrow> lower u = lower v"
  shows "without_expected (fst (analyze_image_hybrid world url sid x s))
           = without_expected (fst (analyze_image_hybrid world url sid x' s'))
       \<and> hybrid_rel E (snd (analyze_image_hybrid world url sid x s))
           (snd (analyze_image_hybrid world url sid x' s'))"
proof (cases "world url")
  case (Inl msg)
  then show ?thesis using assms(1) by (simp add: analyze_image_hybrid_def)
next
  case (Inr cells)
  have "acc_rel E (s, [], False, False) (s', [], False, False)"
    using assms(1) by (simp add: acc_rel_def)
  moreover have "rel_sum (exc_rel E) (acc_rel E)
      (analyze_cell_hybrid x cells p a) (analyze_cell_hybrid x' cells p b)"
    if "acc_rel E a b" for p a b
    using that assms(2,3) by (rule analyze_cell_hybrid_rel)
  ultimately have "rel_sum (exc_rel E) (acc_rel E)
      (for_each (analyze_cell_hybrid x cells) grid_positions (s, [], False, False))
      (for_each (analyze_cell_hybrid x' cells) grid_positions (s', [], False, False))"
    using for_each_rel[where R="acc_rel E" and Q="exc_rel E"
        and f="analyze_cell_hybrid x cells" and g="analyze_cell_hybrid x' cells"]
    by blast
  then show ?thesis
    by (cases "for_each (analyze_cell_hybrid x cells) grid_positions (s, [], False, False)";
        cases "for_each (analyze_cell_hybrid x' cells) grid_positions (s', [], False, False)")
       (auto simp add: analyze_image_hybrid_def Inr exc_rel_def acc_rel_def)
qed

subsection \<open>The correct-detection flag\<close>

definition hit :: "string option \<Rightarrow> (string \<times> cell_result) list \<Rightarrow> bool" where
  "hit x g \<longleftrightarrow>
     truthy x \<and> (\<exists>e \<in> set g. \<exists>m \<in> set (cr_vocab_matches (snd e)).
                    lower (vm_vocab_term m) = lower (the x))"

lemma update_new_key: "k \<notin> fst ` set g \<Longrightarrow> AList.update k v g = g @ [(k, v)]"
  by (induction g) auto

lemma analyze_cell_hybrid_hit:
  assumes "analyze_cell_hybrid x cells p (s, g, c, d) = Inr (s', g', c', d')"
    "p \<notin> fst ` set g" "c = hit x g"
  shows "c' = hit x g' \<and> fst ` set g' = insert p (fst ` set g)"
proof (cases "cells p")
  case (Inl msg)
  with assms(1) show ?thesis by (simp add: analyze_cell_hybrid_def)
next
  case (Inr preds)
  let ?m = "match_vocabulary_terms_hybrid preds
              (discover_class_mappings_hybrid preds x
                 (s\<lparr>total_cells_analyzed := total_cells_analyzed s + 1\<rparr>))"
  let ?cr = "\<lparr>cr_predictions = take 5 preds, cr_vocab_matches = ?m,
              top_vocab_match = (case ?m of [] \<Rightarrow> None | m # _ \<Rightarrow> Some m),
              cr_expected_vocab = x\<rparr>"
  from assms(1) Inr have g': "g' = AList.update p ?cr g"
    and c': "c' = (c \<or> (\<exists>m \<in> set ?m.
               truthy x \<and> lower (vm_vocab_term m) = lower (the x)))"
    by (simp_all add: analyze_cell_hybrid_def Let_def)
  from g' assms(2) have "g' = g @ [(p, ?cr)]" by (simp add: update_new_key)
  with c' assms(3) show ?thesis by (auto simp: hit_def)
qed

lemma for_each_analyze_cell_hybrid_hit:
  "for_each (analyze_cell_hybrid x cells) ps (s, g, c, d) = Inr (s', g', c', d') \<Longrightarrow>
   distinct ps \<Longrightarrow> fst ` set g \<inter> set ps = {} \<Longrightarrow> c = hit x g \<Longrightarrow> c' = hit x g'"
proof (induction ps arbitrary: s g c d)
  case Nil
  then show ?case by auto
next
  case (Cons p ps)
  from Cons.prems(1) obtain s1 g1 c1 d1 where
    st: "analyze_cell_hybrid x cells p (s, g, c, d) = Inr (s1, g1, c1, d1)"
    and rest: "for_each (analyze_cell_hybrid x cells) ps (s1, g1, c1, d1) = Inr (s', g', c', d')"
    by (cases "analyze_cell_hybrid x cells p (s, g, c, d)") auto
  from Cons.prems(3) have "p \<notin> fst ` set g" by auto
  from analyze_cell_hybrid_hit[OF st this Cons.prems(4)]
  have c1: "c1 = hit x g1" and k: "fst ` set g1 = insert p (fst ` set g)" by simp_all
  from k Cons.prems(2,3) have "fst ` set g1 \<inter> set ps = {}" by auto
  moreover from Cons.prems(2) have "distinct ps" by simp
  ultimately show ?case using Cons.IH[OF rest] c1 by simp
qed

lemma has_correct_detection_iff:
  assumes "analyze_image_hybrid world url sid x h = (Success a, h')"
  shows "has_correct_detection a \<longleftrightarrow>
     truthy x \<and> (\<exists>e \<in> set (grid_results a). \<exists>m \<in> set (cr_vocab_matches (snd e)).
                    lower (vm_vocab_term m) = lower (the x))"
proof (cases "world url")
  case (Inl msg)
  with assms show ?thesis by (simp add: analyze_image_hybrid_def)
next
  case (Inr cells)
  with assms obtain s' g c d where
    f: "for_each (analyze_cell_hybrid x cells) grid_positions (h, [], False, False)
          = Inr (s', g, c, d)"
    and a: "grid_results a = g" "has_correct_detection a = c"
    by (auto simp add: analyze_image_hybrid_def split: sum.splits)
  have "c = hit x g"
    by (rule for_each_analyze_cell_hybrid_hit[OF f]) (simp_all add: grid_positions_def hit_def)
  with a show ?thesis by (simp add: hit_def)
qed

lemma state_rel_refl:
  assumes "\<And>a. E a a"
  shows "state_rel E s s"
proof -
  have "obs_rel E d d" for d by (simp add: obs_rel_def assms)
  then have "list_all2 (obs_rel E) ds ds" for ds by (simp add: list_all2_refl)
  then have "entry_rel E x x" for x by (simp add: entry_rel_def)
  then have "list_all2 (entry_rel E) dcs dcs" for dcs by (simp add: list_all2_refl)
  moreover have "rel_option stats_rel o1 o1" for o1
    by (cases o1) (simp_all add: stats_rel_def)
  ultimately show ?thesis by (simp add: state_rel_def)
qed

lemma analyze_image_hybrid_same_case:
  assumes "lower e = lower e'"
  shows "without_expected (fst (analyze_image_hybrid world url sid (Some e) h))
           = without_expected (fst (analyze_image_hybrid world url sid (Some e') h))
       \<and> class_mapping (snd (analyze_image_hybrid world url sid (Some e) h))
           = class_mapping (snd (analyze_image_hybrid world url sid (Some e') h))"
proof -
  let ?E = "\<lambda>a b. lower a = lower b"
  have "state_rel ?E h h" by (rule state_rel_refl) simp
  then have hr: "hybrid_rel ?E h h" by (simp add: hybrid_rel_def list_all2_same)
  have ro: "rel_option ?E (Some e) (Some e')" using assms by simp
  from analyze_image_hybrid_rel[where E="?E", OF hr ro, of world url sid]
  show ?thesis by (simp add: hybrid_rel_def state_rel_def)
qed

subsection \<open>Two vocabulary files that differ in case only\<close>

text \<open>
  A relation on terms is a respelling when it relates a term to at most one term, in both
  directions, and related terms are equal in lower case. The rebuild counts the observations
  of a class by their expected terms as they are spelled. Under a respelling the counters of
  two related lists of observations have the same counts in the same order, so the rebuild
  takes the same decisions and writes the same terms in lower case.
\<close>

definition counter_rel :: "(string \<Rightarrow> string \<Rightarrow> bool) \<Rightarrow> string \<times> nat \<Rightarrow> string \<times> nat \<Rightarrow> bool" where
  "counter_rel E x y \<longleftrightarrow> E (fst x) (fst y) \<and> snd x = snd y"

definition respelling :: "(string \<Rightarrow> string \<Rightarrow> bool) \<Rightarrow> bool" where
  "respelling E \<longleftrightarrow> bi_unique E \<and> (\<forall>a b. E a b \<longrightarrow> lower a = lower b)"

lemma respelling_unique: "respelling E \<Longrightarrow> bi_unique E"
  by (simp add: respelling_def)

lemma respelling_lower: "respelling E \<Longrightarrow> E a b \<Longrightarrow> lower a = lower b"
  by (simp add: respelling_def)

lemma bi_unique_same:
  "bi_unique E \<Longrightarrow> E a b \<Longrightarrow> E a' b' \<Longrightarrow> (a = a') = (b = b')"
  by (auto simp: bi_unique_def)

lemma counter_rel_map_of:
  assumes "bi_unique E"
  shows "list_all2 (counter_rel E) c c' \<Longrightarrow> E k k' \<Longrightarrow> map_of c k = map_of c' k'"
proof (induction rule: list_all2_induct)
  case Nil
  show ?case by simp
next
  case (Cons x xs y ys)
  from Cons.hyps(1) have e: "E (fst x) (fst y)" and n: "snd x = snd y"
    by (simp_all add: counter_rel_def)
  from bi_unique_same[OF assms Cons.prems e] have "(k = fst x) = (k' = fst y)" .
  with n Cons.IH[OF Cons.prems] show ?case
    by (cases x; cases y) auto
qed

lemma counter_rel_update:
  assumes "bi_unique E"
  shows "list_all2 (counter_rel E) c c' \<Longrightarrow> E k k' \<Longrightarrow>
         list_all2 (counter_rel E) (AList.update k v c) (AList.update k' v c')"
proof (induction rule: list_all2_induct)
  case Nil
  then show ?case by (simp add: counter_rel_def)
next
  case (Cons x xs y ys)
  from Cons.hyps(1) have e: "E (fst x) (fst y)" and n: "snd x = snd y"
    by (simp_all add: counter_rel_def)
  from bi_unique_same[OF assms Cons.prems e] have "(k = fst x) = (k' = fst y)" .
  with Cons.hyps Cons.IH[OF Cons.prems] Cons.prems show ?case
    by (cases x; cases y) (auto simp: counter_rel_def)
qed

lemma counter_rel_incr:
  assumes "bi_unique E" "list_all2 (counter_rel E) c c'" "E k k'"
  shows "list_all2 (counter_rel E) (counter_incr k c) (counter_incr k' c')"
  unfolding counter_incr_def counter_rel_map_of[OF assms]
  by (rule counter_rel_update[OF assms])

lemma counter_rel_fold:
  assumes "bi_unique E"
  shows "list_all2 E ts ts' \<Longrightarrow> list_all2 (counter_rel E) c c' \<Longrightarrow>
         list_all2 (counter_rel E) (fold counter_incr ts c) (fold counter_incr ts' c')"
proof (induction arbitrary: c c' rule: list_all2_induct)
  case Nil
  then show ?case by simp
next
  case (Cons t ts t' ts')
  from counter_rel_incr[OF assms Cons.prems Cons.hyps(1)] Cons.IH show ?case by simp
qed

lemma counter_rel_first_max:
  "list_all2 (counter_rel E) xs xs' \<Longrightarrow> counter_rel E b b' \<Longrightarrow>
   counter_rel E (first_max b xs) (first_max b' xs')"
proof (induction arbitrary: b b' rule: list_all2_induct)
  case Nil
  then show ?case by simp
next
  case (Cons x xs y ys)
  have "counter_rel E (if snd b < snd x then x else b) (if snd b' < snd y then y else b')"
    using Cons.hyps(1) Cons.prems by (simp add: counter_rel_def)
  from Cons.IH[OF this] show ?case by simp
qed

lemma counter_rel_most_common_1:
  "list_all2 (counter_rel E) c c' \<Longrightarrow>
   list_all2 (counter_rel E) (most_common_1 c) (most_common_1 c')"
  by (cases c; cases c') (simp_all add: counter_rel_first_max)

lemma obs_rel_metrics:
  assumes "bi_unique E" "list_all2 (obs_rel E) ds ds'"
  shows "length ds = length ds'" "map disc_confidence ds = map disc_confidence ds'"
    "occurrence_count_of ds = occurrence_count_of ds'"
    "ds \<noteq> [] \<Longrightarrow> E (most_common_vocab_of ds) (most_common_vocab_of ds')"
proof -
  show len: "length ds = length ds'" using assms(2) by (rule list_all2_lengthD)
  show "map disc_confidence ds = map disc_confidence ds'"
    using assms(2) by (induction rule: list_all2_induct) (simp_all add: obs_rel_def)
  have ts: "list_all2 E (map expected_vocab ds) (map expected_vocab ds')"
    using assms(2) by (induction rule: list_all2_induct) (simp_all add: obs_rel_def)
  have "list_all2 (counter_rel E) (counter_of (map expected_vocab ds))
          (counter_of (map expected_vocab ds'))"
    unfolding counter_of_def by (rule counter_rel_fold[OF assms(1) ts]) simp
  then have mc: "list_all2 (counter_rel E) (most_common_1 (counter_of (map expected_vocab ds)))
          (most_common_1 (counter_of (map expected_vocab ds')))"
    by (rule counter_rel_most_common_1)
  have ne: "E (most_common_vocab_of ds) (most_common_vocab_of ds')
      \<and> occurrence_count_of ds = occurrence_count_of ds'" if "ds \<noteq> []"
  proof -
    from that len have "ds' \<noteq> []" by auto
    from mc most_common_1_counter_of[OF that] most_common_1_counter_of[OF this]
    show ?thesis by (simp add: counter_rel_def)
  qed
  then show "ds \<noteq> [] \<Longrightarrow> E (most_common_vocab_of ds) (most_common_vocab_of ds')" by simp
  show "occurrence_count_of ds = occurrence_count_of ds'"
  proof (cases "ds = []")
    case True
    with len have "ds' = []" by simp
    with True show ?thesis by simp
  next
    case False
    with ne show ?thesis by simp
  qed
qed

lemma obs_rel_ratios:
  assumes "bi_unique E" "list_all2 (obs_rel E) ds ds'"
  shows "avg_confidence_of ds = avg_confidence_of ds'"
    "consistency_ratio_of ds = consistency_ratio_of ds'"
    "high_confidence_ratio_of h ds = high_confidence_ratio_of h ds'"
proof -
  note m = obs_rel_metrics[OF assms]
  show "avg_confidence_of ds = avg_confidence_of ds'"
    by (simp add: avg_confidence_of_def m(1,2))
  show "consistency_ratio_of ds = consistency_ratio_of ds'"
    by (simp add: consistency_ratio_of_def m(1,3))
  have f: "length (filter (\<lambda>d. disc_confidence d > h) xs)
          = length (filter (\<lambda>x. x > h) (map disc_confidence xs))"
    for xs :: "discovery_info list"
    by (induction xs) simp_all
  show "high_confidence_ratio_of h ds = high_confidence_ratio_of h ds'"
    unfolding high_confidence_ratio_of_def f m(1) m(2) by (rule refl)
qed

lemma obs_rel_hybrid:
  assumes "bi_unique E" "list_all2 (obs_rel E) ds ds'"
  shows "hybrid_accepts ds = hybrid_accepts ds'" "stats_rel (hybrid_stats ds) (hybrid_stats ds')"
  using obs_rel_metrics(1,3)[OF assms] obs_rel_ratios[OF assms]
  by (simp_all add: hybrid_accepts_def hybrid_stats_def stats_rel_def)

lemma for_each_build_step_hybrid_rel:
  assumes "respelling E"
  shows "list_all2 (entry_rel E) dcs dcs' \<Longrightarrow> \<forall>c. rel_option stats_rel (vs c) (vs' c) \<Longrightarrow>
    \<exists>nm1 vs1 vs1'. for_each (build_step_hybrid cm) dcs (nm, vs) = Inr (nm1, vs1)
       \<and> for_each (build_step_hybrid cm) dcs' (nm, vs') = Inr (nm1, vs1')
       \<and> (\<forall>c. rel_option stats_rel (vs1 c) (vs1' c))"
proof (induction arbitrary: nm vs vs' rule: list_all2_induct)
  case Nil
  then show ?case by simp
next
  case (Cons x xs y ys)
  obtain c ds where x: "x = (c, ds)" by (cases x)
  obtain c' ds' where y: "y = (c', ds')" by (cases y)
  from Cons.hyps(1) x y have c': "c' = c" and o: "list_all2 (obs_rel E) ds ds'"
    by (simp_all add: entry_rel_def)
  note bu = respelling_unique[OF assms]
  note h = obs_rel_hybrid[OF bu o]
  let ?a = "c \<notin> dom cm \<and> hybrid_accepts ds"
  let ?nm = "if ?a then nm(c \<mapsto> lower (most_common_vocab_of ds)) else nm"
  let ?vs = "if ?a then vs(c \<mapsto> hybrid_stats ds) else vs"
  let ?vs' = "if ?a then vs'(c \<mapsto> hybrid_stats ds') else vs'"
  have l: "lower (most_common_vocab_of ds) = lower (most_common_vocab_of ds')" if ?a
  proof -
    from that have "ds \<noteq> []" using hybrid_accepts_nonempty by blast
    from obs_rel_metrics(4)[OF bu o this] show ?thesis by (rule respelling_lower[OF assms])
  qed
  have s1: "build_step_hybrid cm x (nm, vs) = Inr (?nm, ?vs)"
    by (simp add: x build_step_hybrid_eq)
  have s2: "build_step_hybrid cm y (nm, vs') = Inr (?nm, ?vs')"
    using l by (simp add: y c' build_step_hybrid_eq h(1)[symmetric])
  have r: "\<forall>k. rel_option stats_rel (?vs k) (?vs' k)"
    using Cons.prems h(2) by simp
  from Cons.IH[of ?vs ?vs' ?nm, OF r] show ?case
    by (simp add: s1 s2)
qed

lemma build_class_mapping_hybrid_rel:
  assumes "respelling E" "hybrid_rel E s s'"
  shows "\<exists>nm s1 s1'. build_class_mapping_hybrid s = Inr (nm, s1)
     \<and> build_class_mapping_hybrid s' = Inr (nm, s1') \<and> hybrid_rel E s1 s1'"
proof -
  from assms(2) have cm: "class_mapping s' = class_mapping s"
    and dc: "list_all2 (entry_rel E) (discovered_classes s) (discovered_classes s')"
    and vs: "\<forall>c. rel_option stats_rel (validation_stats s c) (validation_stats s' c)"
    by (simp_all add: hybrid_rel_def state_rel_def)
  from for_each_build_step_hybrid_rel[OF assms(1) dc vs, of "class_mapping s" Map.empty]
  obtain nm1 vs1 vs1' where
    f: "for_each (build_step_hybrid (class_mapping s)) (discovered_classes s)
          (Map.empty, validation_stats s) = Inr (nm1, vs1)"
    and f': "for_each (build_step_hybrid (class_mapping s)) (discovered_classes s')
          (Map.empty, validation_stats s') = Inr (nm1, vs1')"
    and r: "\<forall>c. rel_option stats_rel (vs1 c) (vs1' c)"
    by blast
  let ?s1 = "s\<lparr>validation_stats := vs1, class_mapping := class_mapping s ++ nm1\<rparr>"
  let ?s1' = "s'\<lparr>validation_stats := vs1', class_mapping := class_mapping s' ++ nm1\<rparr>"
  have b: "build_class_mapping_hybrid s = Inr (nm1, ?s1)"
    by (simp add: build_class_mapping_hybrid_def f)
  have b': "build_class_mapping_hybrid s' = Inr (nm1, ?s1')"
    by (simp add: build_class_mapping_hybrid_def cm f')
  have "hybrid_rel E ?s1 ?s1'"
    using assms(2) r by (simp add: hybrid_rel_def state_rel_def)
  with b b' show ?thesis by blast
qed

lemma expected_vocab_of_rel:
  assumes "list_all2 E terms terms'"
  shows "rel_sum (=) (rel_option E) (expected_vocab_of terms i) (expected_vocab_of terms' i)"
proof -
  from assms have len: "length terms' = length terms" by (simp add: list_all2_lengthD)
  have n: "E (terms ! n) (terms' ! n)" if "n < length terms" for n
    using assms that by (rule list_all2_nthD)
  have p: "rel_sum (=) E (py_index terms j) (py_index terms' j)" for j
    by (auto simp add: py_index_def len intro!: n)
  have "rel_sum (=) (rel_option E)
      (case py_index terms j of Inl e \<Rightarrow> Inl e | Inr t \<Rightarrow> Inr (Some t))
      (case py_index terms' j of Inl e \<Rightarrow> Inl e | Inr t \<Rightarrow> Inr (Some t))" for j
    using p[of j] by (cases "py_index terms j"; cases "py_index terms' j") simp_all
  then show ?thesis by (simp add: expected_vocab_of_def len Let_def)
qed

lemma image_step_hybrid_rel:
  assumes "respelling E" "hybrid_rel E s s'"
  shows "rel_sum (exc_rel E) (hybrid_rel E)
           (image_step_hybrid world i s) (image_step_hybrid world i s')"
proof -
  let ?ev = "expected_vocab_of (vocab_terms s) i"
  let ?ev' = "expected_vocab_of (vocab_terms s') i"
  from assms(2) have "list_all2 E (vocab_terms s) (vocab_terms s')"
    by (simp add: hybrid_rel_def)
  from expected_vocab_of_rel[OF this, of i] consider
    (exc) e where "?ev = Inl e" "?ev' = Inl e"
  | (val) x x' where "?ev = Inr x" "?ev' = Inr x'" "rel_option E x x'"
    by (cases ?ev; cases ?ev') simp_all
  then show ?thesis
  proof cases
    case exc
    with assms(2) show ?thesis by (simp add: image_step_hybrid_def exc_rel_def)
  next
    case val
    let ?sid = "format_03d i"
    let ?an = "analyze_image_hybrid world (image_url_of ?sid) ?sid x s"
    let ?an' = "analyze_image_hybrid world (image_url_of ?sid) ?sid x' s'"
    let ?s2 = "(snd ?an)\<lparr>results := results (snd ?an) @ [fst ?an]\<rparr>"
    let ?s2' = "(snd ?an')\<lparr>results := results (snd ?an') @ [fst ?an']\<rparr>"
    have "without_expected (fst ?an) = without_expected (fst ?an')
       \<and> hybrid_rel E (snd ?an) (snd ?an')"
      by (rule analyze_image_hybrid_rel[OF assms(2) val(3)]) (rule respelling_lower[OF assms(1)])
    then have "hybrid_rel E ?s2 ?s2'"
      by (simp add: hybrid_rel_def state_rel_extras)
    from build_class_mapping_hybrid_rel[OF assms(1) this] obtain nm s3 s3' where
      "build_class_mapping_hybrid ?s2 = Inr (nm, s3)"
      "build_class_mapping_hybrid ?s2' = Inr (nm, s3')" "hybrid_rel E s3 s3'"
      by blast
    then show ?thesis
      by (simp add: image_step_hybrid_def val(1,2) Let_def split_beta)
  qed
qed

lemma success_without_expected: "success (without_expected r) = success r"
  by (cases r) simp_all

lemma no_success_without_expected:
  assumes "map without_expected rs = map without_expected rs'"
  shows "(filter success rs = []) = (filter success rs' = [])"
proof -
  have "map success rs = map success (map without_expected rs)" for rs
    by (simp add: success_without_expected)
  with assms have "map success rs = map success rs'" by metis
  then have "(\<forall>b \<in> set (map success rs). \<not> b) = (\<forall>b \<in> set (map success rs'). \<not> b)" by simp
  then show ?thesis by (simp add: filter_empty_conv)
qed

lemma run_hybrid_analysis_rel:
  assumes "respelling E" "hybrid_rel E s s'"
  shows "map_sum id (map without_expected) (fst (run_hybrid_analysis world a b s))
           = map_sum id (map without_expected) (fst (run_hybrid_analysis world a b s'))
       \<and> hybrid_rel E (snd (run_hybrid_analysis world a b s))
           (snd (run_hybrid_analysis world a b s'))"
proof -
  let ?f = "for_each (image_step_hybrid world) [a..b] s"
  let ?f' = "for_each (image_step_hybrid world) [a..b] s'"
  have "rel_sum (exc_rel E) (hybrid_rel E) (image_step_hybrid world i u)
          (image_step_hybrid world i v)" if "hybrid_rel E u v" for i u v
    using assms(1) that by (rule image_step_hybrid_rel)
  then have "rel_sum (exc_rel E) (hybrid_rel E) ?f ?f'"
    using for_each_rel[where R="hybrid_rel E" and Q="exc_rel E"
        and f="image_step_hybrid world" and g="image_step_hybrid world"] assms(2)
    by blast
  then consider
    (exc) e u v where "?f = Inl (e, u)" "?f' = Inl (e, v)" "hybrid_rel E u v"
  | (val) s1 s1' where "?f = Inr s1" "?f' = Inr s1'" "hybrid_rel E s1 s1'"
    by (cases ?f; cases ?f') (auto simp: exc_rel_def)
  then show ?thesis
  proof cases
    case exc
    then show ?thesis by (simp add: run_hybrid_analysis_def)
  next
    case val
    from build_class_mapping_hybrid_rel[OF assms(1) val(3)] obtain nm s2 s2' where
      b: "build_class_mapping_hybrid s1 = Inr (nm, s2)"
      "build_class_mapping_hybrid s1' = Inr (nm, s2')" and h: "hybrid_rel E s2 s2'"
      by blast
    from h have r: "map without_expected (results s2) = map without_expected (results s2')"
      by (simp add: hybrid_rel_def)
    from no_success_without_expected[OF r] r h show ?thesis
      by (simp add: run_hybrid_analysis_def val(1,2) b)
  qed
qed

definition same_word :: "string list \<Rightarrow> string list \<Rightarrow> string \<Rightarrow> string \<Rightarrow> bool" where
  "same_word terms terms' a b \<longleftrightarrow> a \<in> set terms \<and> b \<in> set terms' \<and> lower a = lower b"

lemma same_word_respelling:
  assumes "inj_on lower (set terms)" "inj_on lower (set terms')"
  shows "respelling (same_word terms terms')"
proof -
  let ?E = "same_word terms terms'"
  have r: "b = c" if "?E a b" "?E a c" for a b c
    using that assms(2) unfolding same_word_def by (metis inj_onD)
  have l: "a = b" if "?E a c" "?E b c" for a b c
    using that assms(1) unfolding same_word_def by (metis inj_onD)
  have "bi_unique ?E" unfolding bi_unique_def using r l by blast
  then show ?thesis by (simp add: respelling_def same_word_def)
qed

lemma same_word_terms:
  assumes "map lower terms = map lower terms'"
  shows "list_all2 (same_word terms terms') terms terms'"
proof -
  from assms have len: "length terms = length terms'" by (rule map_eq_imp_length_eq)
  have "lower (terms ! n) = lower (terms' ! n)" if "n < length terms" for n
    using that len arg_cong[OF assms, of "\<lambda>xs. xs ! n"] by simp
  with len show ?thesis
    by (simp add: list_all2_conv_all_nth same_word_def)
qed

lemma run_hybrid_analysis_same_case:
  assumes "map lower terms = map lower terms'"
    "inj_on lower (set terms)" "inj_on lower (set terms')"
  shows "map_sum id (map without_expected)
           (fst (run_hybrid_analysis world a b (init_hybrid terms)))
         = map_sum id (map without_expected)
             (fst (run_hybrid_analysis world a b (init_hybrid terms')))
       \<and> class_mapping (snd (run_hybrid_analysis world a b (init_hybrid terms)))
         = class_mapping (snd (run_hybrid_analysis world a b (init_hybrid terms')))"
proof -
  let ?E = "same_word terms terms'"
  have r: "respelling ?E" by (rule same_word_respelling[OF assms(2,3)])
  have "hybrid_rel ?E (init_hybrid terms) (init_hybrid terms')"
    using same_word_terms[OF assms(1)]
    by (simp add: hybrid_rel_def state_rel_def init_hybrid_def)
  from run_hybrid_analysis_rel[OF r this, of world a b]
  show ?thesis by (simp add: hybrid_rel_def state_rel_def)
qed


text \<open>
  Claim C10, as the code has it. In a run of either analyzer every term of the class mapping is
  in lower case. The correct-detection flag of a successfully analysed image holds exactly
  when there is an expected term and some match of some cell has a term equal to it after
  both are put in lower case. So, from a given state, the analysis of an image gives the same
  matches, the same flags and the same class mapping for two expected terms that differ only
  in case. And two runs of the hybrid analysis over the same images, with two vocabulary files
  that differ only in case, give the same results but for the spelling of the expected terms,
  and the same class mapping, when neither file holds two entries that differ only in case.
\<close>

theorem lowercase_terms_case_insensitive_flag:
  "(run p calls (init_analyzer terms) = Inr s \<and> class_mapping s c = Some t \<longrightarrow> lower t = t)
   \<and> (analyze_image_hybrid world url sid x h = (Success a, h') \<longrightarrow>
        (has_correct_detection a \<longleftrightarrow>
           truthy x \<and> (\<exists>e \<in> set (grid_results a). \<exists>m \<in> set (cr_vocab_matches (snd e)).
                          lower (vm_vocab_term m) = lower (the x))))
   \<and> (lower e = lower e' \<longrightarrow>
        without_expected (fst (analyze_image_hybrid world url sid (Some e) h))
          = without_expected (fst (analyze_image_hybrid world url sid (Some e') h))
        \<and> class_mapping (snd (analyze_image_hybrid world url sid (Some e) h))
          = class_mapping (snd (analyze_image_hybrid world url sid (Some e') h)))
   \<and> (map lower ts = map lower ts' \<and> inj_on lower (set ts) \<and> inj_on lower (set ts') \<longrightarrow>
        map_sum id (map without_expected)
            (fst (run_hybrid_analysis world start_id end_id (init_hybrid ts)))
          = map_sum id (map without_expected)
              (fst (run_hybrid_analysis world start_id end_id (init_hybrid ts')))
        \<and> class_mapping (snd (run_hybrid_analysis world start_id end_id (init_hybrid ts)))
          = class_mapping (snd (run_hybrid_analysis world start_id end_id (init_hybrid ts'))))"
  using run_from_init_lowercase[of p calls terms s c t]
    has_correct_detection_iff[of world url sid x h a h']
    analyze_image_hybrid_same_case[of e e' world url sid h]
    run_hybrid_analysis_same_case[of ts ts' world start_id end_id]
  by blast

text \<open>
  A hybrid run that sees \<open>obvious_cell\<close> with the expected term Acorn maps class 42 to acorn;
  image 004 of \<open>acorn_world\<close>, analysed with the expected term Acorn on a fresh analyzer, has
  the correct-detection flag, as it has with the expected term acorn; and the runs over the
  images 004 and 005 with the vocabulary Acorn, Fork and with the vocabulary acorn, fork give
  the same results.
\<close>

definition fast_path_calls :: "call list" where
  "fast_path_calls = [Discover obvious_cell (Some ''Acorn''), Rebuild]"

theorem lowercase_terms_case_insensitive_flag_witness:
  "(\<exists>s. run Hybrid fast_path_calls (init_analyzer [''Acorn'']) = Inr s
        \<and> class_mapping s ''42'' = Some ''acorn'')
   \<and> lower ''acorn'' = ''acorn''
   \<and> (\<exists>a h'. analyze_image_hybrid acorn_world (image_url_of ''004'') ''004'' (Some ''Acorn'')
                (init_hybrid [''Acorn'']) = (Success a, h')
        \<and> has_correct_detection a
        \<and> (\<exists>e \<in> set (grid_results a). \<exists>m \<in> set (cr_vocab_matches (snd e)).
              lower (vm_vocab_term m) = lower ''Acorn''))
   \<and> lower ''Acorn'' = lower ''acorn''
   \<and> without_expected (fst (analyze_image_hybrid acorn_world (image_url_of ''004'') ''004''
                              (Some ''Acorn'') (init_hybrid [''Acorn''])))
       = without_expected (fst (analyze_image_hybrid acorn_world (image_url_of ''004'') ''004''
                                  (Some ''acorn'') (init_hybrid [''Acorn''])))
   \<and> map lower [''Acorn'', ''Fork''] = map lower [''acorn'', ''fork'']
   \<and> inj_on lower (set [''Acorn'', ''Fork'']) \<and> inj_on lower (set [''acorn'', ''fork''])
   \<and> map_sum id (map without_expected)
         (fst (run_hybrid_analysis acorn_world 4 5 (init_hybrid [''Acorn'', ''Fork''])))
       = map_sum id (map without_expected)
           (fst (run_hybrid_analysis acorn_world 4 5 (init_hybrid [''acorn'', ''fork''])))"
proof -
  let ?run = "run Hybrid fast_path_calls (init_analyzer [''Acorn''])"
  let ?h = "init_hybrid [''Acorn'']"
  let ?an = "analyze_image_hybrid acorn_world (image_url_of ''004'') ''004'' (Some ''Acorn'') ?h"
  have "(case ?run of Inl e \<Rightarrow> None | Inr s \<Rightarrow> class_mapping s ''42'') = Some ''acorn''"
    by code_simp
  then obtain s where r: "?run = Inr s" and m: "class_mapping s ''42'' = Some ''acorn''"
    by (cases ?run) simp_all
  have "summary (fst ?an) = (''004'', True, Some ''Acorn'', True, True)"
    by code_simp
  then obtain a where a: "fst ?an = Success a" and c: "has_correct_detection a"
    by (cases "fst ?an") simp_all
  from a have an: "?an = (Success a, snd ?an)" by (simp add: prod_eq_iff)
  have l: "lower ''Acorn'' = lower ''acorn''" by (simp add: lower_def lower_char_def)
  have v: "map lower [''Acorn'', ''Fork''] = map lower [''acorn'', ''fork'']"
    "inj_on lower (set [''Acorn'', ''Fork''])" "inj_on lower (set [''acorn'', ''fork''])"
    by (simp_all add: lower_def lower_char_def)
  note t = lowercase_terms_case_insensitive_flag[where p=Hybrid and calls=fast_path_calls
      and terms="[''Acorn'']" and s=s and c="''42''" and t="''acorn''"
      and world=acorn_world and url="image_url_of ''004''" and sid="''004''"
      and x="Some ''Acorn''" and h="?h" and a=a and h'="snd ?an"
      and e="''Acorn''" and e'="''acorn''"
      and ts="[''Acorn'', ''Fork'']" and ts'="[''acorn'', ''fork'']"
      and start_id=4 and end_id=5]
  from t r m have 1: "lower ''acorn'' = ''acorn''" by blast
  from t an c have 2: "\<exists>e \<in> set (grid_results a). \<exists>m \<in> set (cr_vocab_matches (snd e)).
              lower (vm_vocab_term m) = lower ''Acorn''"
    by simp
  from t l have 3: "without_expected (fst ?an)
       = without_expected (fst (analyze_image_hybrid acorn_world (image_url_of ''004'') ''004''
                                  (Some ''acorn'') ?h))"
    by blast
  from t v have 4: "map_sum id (map without_expected)
         (fst (run_hybrid_analysis acorn_world 4 5 (init_hybrid [''Acorn'', ''Fork''])))
       = map_sum id (map without_expected)
           (fst (run_hybrid_analysis acorn_world 4 5 (init_hybrid [''acorn'', ''fork''])))"
    by blast
  have A: "\<exists>s. ?run = Inr s \<and> class_mapping s ''42'' = Some ''acorn''"
    using r m by blast
  have B: "\<exists>a h'. ?an = (Success a, h') \<and> has_correct_detection a
        \<and> (\<exists>e \<in> set (grid_results a). \<exists>m \<in> set (cr_vocab_matches (snd e)).
              lower (vm_vocab_term m) = lower ''Acorn'')"
    using an c 2 by blast
  from A 1 B l 3 v 4 show ?thesis by (intro conjI)
qed

text \<open>
  The claim as stated fails for a vocabulary file that spells one word in two ways. In
  \<open>faint_world\<close> every image shows, top left, class 42 at 40 percent, which is recorded as
  one observation and needs a second one with the same expected term. With the vocabulary
  acorn, acorn, acorn the rebuild after image 005 maps class 42, and image 006 has the
  correct-detection flag. With the vocabulary Acorn, acorn, acorn, which differs from it only
  in case, the two observations after image 005 have two different terms, the consistency
  ratio is 0.5, class 42 is not mapped, and image 006 has no detection.
\<close>

definition faint_cells :: "string \<Rightarrow> cell_outcome" where
  "faint_cells position =
     (if position = ''top_left'' then Inr [mk_prediction 1 ''42'' 40, mk_prediction 2 ''7'' 20]
      else Inr [mk_prediction 1 ''7'' 20, mk_prediction 2 ''8'' 5])"

definition faint_world :: "string \<Rightarrow> image_outcome" where
  "faint_world url = Inr faint_cells"

theorem vocabulary_casing_counterexample:
  "map lower [''Acorn'', ''acorn'', ''acorn''] = map lower [''acorn'', ''acorn'', ''acorn'']
   \<and> map_sum id (map summary)
         (fst (run_hybrid_analysis faint_world 4 6 (init_hybrid [''acorn'', ''acorn'', ''acorn''])))
       = Inr [(''004'', True, Some ''acorn'', False, False),
              (''005'', True, Some ''acorn'', False, False),
              (''006'', True, Some ''acorn'', True, True)]
   \<and> map_sum id (map summary)
         (fst (run_hybrid_analysis faint_world 4 6 (init_hybrid [''Acorn'', ''acorn'', ''acorn''])))
       = Inr [(''004'', True, Some ''Acorn'', False, False),
              (''005'', True, Some ''acorn'', False, False),
              (''006'', True, Some ''acorn'', False, False)]"
  by code_simp

end
